theory Spec2Isabelle
  imports Main "HOL-Library.Word"
begin

unbundle bit_operations_syntax

section \<open>Keys: JavaScript strings and their normalisation\<close>

text \<open>
  A JavaScript string is a sequence of UTF-16 code units; \<open>charCodeAt\<close> reads one of
  them. Keys reach the strategies as strings (the controller passes the text of the
  input field, and the strategies pass stored keys on), so the \<open>typeof rawKey === 'number'\<close>
  branch of \<open>normaliseKey\<close> is never taken and is not modelled.
\<close>

type_synonym jstring = "16 word list"

text \<open>ASCII literals, for writing concrete keys.\<close>

definition ascii :: "string \<Rightarrow> jstring" where
  "ascii s = map (\<lambda>c. of_nat (of_char c)) s"

text \<open>\<open>String.prototype.trim\<close> strips WhiteSpace and LineTerminator code points.\<close>

definition isWhiteSpace :: "16 word \<Rightarrow> bool" where
  "isWhiteSpace c \<longleftrightarrow>
     c = 0x09 \<or> c = 0x0A \<or> c = 0x0B \<or> c = 0x0C \<or> c = 0x0D \<or> c = 0x20 \<or> c = 0xA0 \<or>
     c = 0x1680 \<or> (0x2000 \<le> c \<and> c \<le> 0x200A) \<or> c = 0x2028 \<or> c = 0x2029 \<or>
     c = 0x202F \<or> c = 0x205F \<or> c = 0x3000 \<or> c = 0xFEFF"

definition trim :: "jstring \<Rightarrow> jstring" where
  "trim s = rev (dropWhile isWhiteSpace (rev (dropWhile isWhiteSpace s)))"

definition isDigit :: "16 word \<Rightarrow> bool" where
  "isDigit c \<longleftrightarrow> 0x30 \<le> c \<and> c \<le> 0x39"

text \<open>The sign and the digits of a key: \<open>-\<close> is code unit \<open>0x2D\<close>.\<close>

definition isNegative :: "jstring \<Rightarrow> bool" where
  "isNegative key = (case key of [] \<Rightarrow> False | c # cs \<Rightarrow> c = 0x2D)"

definition digitsOf :: "jstring \<Rightarrow> jstring" where
  "digitsOf key = (if isNegative key then tl key else key)"

text \<open>The regular expression \<open>/^-?\d+$/\<close>.\<close>

definition matchesInteger :: "jstring \<Rightarrow> bool" where
  "matchesInteger key \<longleftrightarrow> digitsOf key \<noteq> [] \<and> list_all isDigit (digitsOf key)"

subsection \<open>\<open>parseInt(key, 10)\<close> and \<open>String\<close> of its result\<close>

text \<open>
  \<open>parseInt\<close> returns a Number, an IEEE 754 double. On a key that matches the regular
  expression its value is the integer the digits denote, rounded to the nearest double
  (ties to even), infinite from \<open>2^1024\<close> on, and \<open>-0\<close> for a negative zero. The
  numbers that can arise are therefore a sign with a magnitude that is a natural number,
  or an infinity.
\<close>

datatype number = Num bool nat | Infinity bool

fun bitlen :: "nat \<Rightarrow> nat" where
  "bitlen n = (if n = 0 then 0 else Suc (bitlen (n div 2)))"

text \<open>Rounding a natural number to a double: 53 significant bits, ties to even.\<close>

definition toDouble :: "nat \<Rightarrow> nat option" where
  "toDouble m =
     (if m < 2 ^ 53 then Some m
      else let e = bitlen m - 53;
               q = m div 2 ^ e;
               r = m mod 2 ^ e;
               half = 2 ^ (e - 1);
               q' = (if half < r \<or> (r = half \<and> odd q) then q + 1 else q);
               v = q' * 2 ^ e
           in if v < 2 ^ 1024 then Some v else None)"

definition mathInt :: "jstring \<Rightarrow> nat" where
  "mathInt ds = foldl (\<lambda>acc d. 10 * acc + unat (d - 0x30)) 0 ds"

definition parseInt :: "jstring \<Rightarrow> number" where
  "parseInt key =
     (case toDouble (mathInt (digitsOf key)) of
        None \<Rightarrow> Infinity (isNegative key)
      | Some v \<Rightarrow> Num (isNegative key) v)"

fun decimalDigits :: "nat \<Rightarrow> jstring" where
  "decimalDigits n =
     (if n < 10 then [0x30 + of_nat n]
      else decimalDigits (n div 10) @ [0x30 + of_nat (n mod 10)])"

text \<open>
  \<open>Number::toString\<close> of a positive integral double \<open>x\<close>: the shortest digit string
  \<open>s\<close> (with \<open>k\<close> digits) and the exponent \<open>n\<close> such that \<open>s * 10^(n-k)\<close> rounds to
  \<open>x\<close>; of two candidates with \<open>k\<close> digits the one closer to \<open>x\<close>. \<open>N\<close> is the
  number of decimal digits of \<open>x\<close>.
\<close>

function shortestDigits :: "nat \<Rightarrow> nat \<Rightarrow> nat \<Rightarrow> nat \<times> nat" where
  "shortestDigits x N k =
     (if N \<le> k then (x, N)
      else let p = 10 ^ (N - k);
               lo = x div p;
               hi = lo + 1;
               okLo = (toDouble (lo * p) = Some x);
               okHi = (toDouble (hi * p) = Some x);
               pick = (if okLo \<and> okHi
                       then (if x - lo * p < hi * p - x then lo
                             else if hi * p - x < x - lo * p then hi
                             else if even lo then lo else hi)
                       else if okLo then lo else hi)
           in if okLo \<or> okHi
              then (if pick = 10 ^ k then (1, N + 1) else (pick, N))
              else shortestDigits x N (k + 1))"
  by pat_completeness auto
termination
  by (relation "measure (\<lambda>(x, N, k). N - k)") auto

definition positiveToString :: "nat \<Rightarrow> jstring" where
  "positiveToString x =
     (let (s, n) = shortestDigits x (length (decimalDigits x)) 1;
          ds = decimalDigits s;
          k = length ds
      in if n \<le> 21 then ds @ replicate (n - k) 0x30
         else if k = 1 then ds @ ascii ''e+'' @ decimalDigits (n - 1)
         else hd ds # ascii ''.'' @ tl ds @ ascii ''e+'' @ decimalDigits (n - 1))"

fun numberToString :: "number \<Rightarrow> jstring" where
  "numberToString (Num neg v) =
     (if v = 0 then ascii ''0''
      else (if neg then ascii ''-'' else []) @ positiveToString v)"
| "numberToString (Infinity neg) = (if neg then ascii ''-'' else []) @ ascii ''Infinity''"

definition normaliseKey :: "jstring \<Rightarrow> jstring" where
  "normaliseKey rawKey =
     (let key = trim rawKey
      in if matchesInteger key then numberToString (parseInt key) else key)"

section \<open>Hashing\<close>

text \<open>
  \<open>hashCode\<close>: 32-bit FNV-1a over the code units of the normalised key. \<open>^=\<close> and
  \<open>Math.imul\<close> work on 32-bit integers and \<open>>>> 0\<close> reads the result as unsigned, so
  the accumulator is a 32-bit word read with \<open>unat\<close>.
\<close>

definition hashCode :: "jstring \<Rightarrow> 32 word" where
  "hashCode rawKey =
     foldl (\<lambda>hash c. (hash XOR ucast c) * 0x01000193) 0x811c9dc5 (normaliseKey rawKey)"

text \<open>
  \<open>primaryIndex\<close> and \<open>secondaryStep\<close> read \<open>this.size\<close>; the model passes the size.
  In \<open>secondaryStep\<close>, \<open>this.size - 1 || 1\<close> is \<open>size - 1\<close> unless that is 0.
\<close>

definition primaryIndex :: "nat \<Rightarrow> jstring \<Rightarrow> nat" where
  "primaryIndex sz rawKey = unat (hashCode rawKey) mod sz"

definition secondaryStep :: "nat \<Rightarrow> jstring \<Rightarrow> nat" where
  "secondaryStep sz rawKey =
     (if sz \<le> 1 then 1
      else let hash = unat (hashCode rawKey);
               step = 1 + hash mod (if sz - 1 = 0 then 1 else sz - 1)
           in if step = 0 then 1 else step)"

section \<open>Table sizes and primes\<close>

definition MIN_TABLE_SIZE :: nat where
  "MIN_TABLE_SIZE = 3"

definition MAX_TABLE_SIZE :: nat where
  "MAX_TABLE_SIZE = 199"

text \<open>The strategies call the size functions with non-negative integers only.\<close>

definition clampTableSize :: "nat \<Rightarrow> nat" where
  "clampTableSize v = min (max v MIN_TABLE_SIZE) MAX_TABLE_SIZE"

function isPrime_loop :: "nat \<Rightarrow> nat \<Rightarrow> bool" where
  "isPrime_loop n i =
     (if i * i \<le> n
      then (if n mod i = 0 \<or> n mod (i + 2) = 0 then False else isPrime_loop n (i + 6))
      else True)"
  by pat_completeness auto
termination
proof (relation "measure (\<lambda>(n, i). Suc n - i)")
  show "wf (measure (\<lambda>(n, i). Suc n - i))" by simp
next
  fix n i :: nat
  assume "i * i \<le> n"
  then have "i \<le> n" by (cases "i = 0") (auto dest: le_trans [OF le_square])
  then show "((n, i + 6), (n, i)) \<in> measure (\<lambda>(n, i). Suc n - i)" by simp
qed

definition isPrime :: "nat \<Rightarrow> bool" where
  "isPrime n =
     (if n \<le> 1 then False
      else if n \<le> 3 then True
      else if n mod 2 = 0 \<or> n mod 3 = 0 then False
      else isPrime_loop n 5)"

function nextPrime_loop :: "nat \<Rightarrow> nat" where
  "nextPrime_loop candidate =
     (if candidate \<le> MAX_TABLE_SIZE
      then (if isPrime candidate then candidate else nextPrime_loop (candidate + 2))
      else MAX_TABLE_SIZE)"
  by pat_completeness auto
termination
  by (relation "measure (\<lambda>candidate. Suc MAX_TABLE_SIZE - candidate)") auto

definition nextPrime :: "nat \<Rightarrow> nat" where
  "nextPrime v =
     (let candidate = clampTableSize v
      in nextPrime_loop (if candidate mod 2 = 0 then candidate + 1 else candidate))"

function previousPrime_loop :: "nat \<Rightarrow> nat" where
  "previousPrime_loop candidate =
     (if MIN_TABLE_SIZE \<le> candidate
      then (if isPrime candidate then candidate else previousPrime_loop (candidate - 2))
      else MIN_TABLE_SIZE)"
  by pat_completeness auto
termination
  by (relation "measure (\<lambda>candidate. candidate)") (auto simp: MIN_TABLE_SIZE_def)

definition previousPrime :: "nat \<Rightarrow> nat" where
  "previousPrime v =
     (let candidate = clampTableSize v
      in if candidate \<le> MIN_TABLE_SIZE then MIN_TABLE_SIZE
         else previousPrime_loop (if candidate mod 2 = 0 then candidate - 1 else candidate))"


text \<open>
  The resize policies compute \<open>Math.ceil(size * 1.6)\<close>, \<open>Math.ceil(size * 1.35)\<close>,
  \<open>Math.floor(size / 1.6)\<close> and \<open>Math.floor(size / 1.5)\<close> in doubles. For \<open>* 1.6\<close>,
  \<open>/ 1.6\<close> and \<open>/ 1.5\<close> the double result at a size up to 199 is the exact one, which
  the model computes in integers: \<open>1.6 = 8/5\<close>, \<open>1.5 = 3/2\<close>.
\<close>

definition ceil_times_1_6 :: "nat \<Rightarrow> nat" where
  "ceil_times_1_6 sz = (sz * 8 + 4) div 5"

text \<open>
  For \<open>* 1.35\<close> the double result is not always the exact one: \<open>Math.ceil(180 * 1.35)\<close>
  is 244, where \<open>180 * 27 / 20\<close> is 243. The model therefore computes the double product.
  The literal \<open>1.35\<close> is the double \<open>6079859496950170 / 2^52\<close>; the product with the size is
  rounded to 53 significant bits, which \<open>toDouble\<close> does on the numerator, and
  \<open>Math.ceil\<close> rounds the quotient up. A product that is infinite, which no size of a
  table reaches, is clamped by \<open>clampTableSize\<close> to the minimum size, as 0 is.
\<close>

definition ceil_times_1_35 :: "nat \<Rightarrow> nat" where
  "ceil_times_1_35 sz =
     (case toDouble (sz * 6079859496950170) of
        Some product \<Rightarrow> (product + (2 ^ 52 - 1)) div 2 ^ 52
      | None \<Rightarrow> 0)"

definition floor_div_1_6 :: "nat \<Rightarrow> nat" where
  "floor_div_1_6 sz = (sz * 5) div 8"

definition floor_div_1_5 :: "nat \<Rightarrow> nat" where
  "floor_div_1_5 sz = (sz * 2) div 3"

section \<open>Results and errors\<close>

text \<open>
  An operation returns \<open>{ logs, highlights, status }\<close>. The logs and highlights are
  text and animation hints for the page; the model keeps the status and the state the
  operation leaves.
\<close>

datatype status = Inserted | Duplicate | Found | Missing | Removed | Full

datatype error =
    RehashFailed  \<comment> \<open>\<open>throw new Error('Rehash failed to allocate slot.')\<close>\<close>
  | TypeError  \<comment> \<open>a method called on \<open>undefined\<close>\<close>

section \<open>Open addressing\<close>

text \<open>
  A slot holds \<open>null\<close>, the \<open>TOMBSTONE\<close> symbol or a key. The three subclasses differ
  in \<open>createContext\<close> and \<open>probeInfo\<close> only, so the state carries the subclass.
  \<open>count\<close> and \<open>tombstones\<close> are JavaScript numbers that the code increments and
  decrements without a check: integers.
\<close>

datatype slot = Empty | Tombstone | Occupied jstring

datatype variant = LinearProbing | QuadraticProbing | DoubleHashing

record oa_state =
  variant :: variant
  size_oa :: nat
  table_oa :: "slot list"
  count_oa :: int
  tombstones :: int

definition clear_oa :: "variant \<Rightarrow> nat \<Rightarrow> oa_state" where
  "clear_oa v sz =
     \<lparr>variant = v, size_oa = sz, table_oa = replicate sz Empty, count_oa = 0, tombstones = 0\<rparr>"

text \<open>
  The load thresholds compare quotients of small integers with decimal constants; the
  model compares the cross products, which for sizes up to 199 decides the same.
  \<open>loadFactor\<close> and \<open>occupancy\<close> are 0 for size 0.
\<close>

definition loadAbove :: "oa_state \<Rightarrow> int \<Rightarrow> bool" where
  \<comment> \<open>\<open>this.loadFactor() > pct / 100\<close>\<close>
  "loadAbove st pct \<longleftrightarrow> size_oa st \<noteq> 0 \<and> pct * int (size_oa st) < count_oa st * 100"

definition loadBelow :: "oa_state \<Rightarrow> int \<Rightarrow> bool" where
  \<comment> \<open>\<open>this.loadFactor() < pct / 100\<close>\<close>
  "loadBelow st pct \<longleftrightarrow>
     (if size_oa st = 0 then 0 < pct else count_oa st * 100 < pct * int (size_oa st))"

definition occupancyAbove :: "oa_state \<Rightarrow> int \<Rightarrow> bool" where
  \<comment> \<open>\<open>this.occupancy() > pct / 100\<close>\<close>
  "occupancyAbove st pct \<longleftrightarrow>
     size_oa st \<noteq> 0 \<and> pct * int (size_oa st) < (count_oa st + tombstones st) * 100"

definition tombstonesAbove :: "oa_state \<Rightarrow> int \<Rightarrow> bool" where
  \<comment> \<open>\<open>this.tombstones > this.size * (pct / 100)\<close>\<close>
  "tombstonesAbove st pct \<longleftrightarrow> int (size_oa st) * pct < tombstones st * 100"

text \<open>
  The probe context: \<open>{ base }\<close>, and \<open>{ base, step }\<close> for double hashing. The
  other two variants have no \<open>step\<close> and never read one; the model leaves it 0 there.
\<close>

record probe_context =
  base :: nat
  step :: nat

definition createContext :: "oa_state \<Rightarrow> jstring \<Rightarrow> probe_context" where
  "createContext st key =
     (case variant st of
        DoubleHashing \<Rightarrow>
          \<lparr>base = primaryIndex (size_oa st) key, step = secondaryStep (size_oa st) key\<rparr>
      | _ \<Rightarrow> \<lparr>base = primaryIndex (size_oa st) key, step = 0\<rparr>)"

definition probeInfo :: "oa_state \<Rightarrow> probe_context \<Rightarrow> nat \<Rightarrow> nat" where
  "probeInfo st ctx attempt =
     (case variant st of
        LinearProbing \<Rightarrow> (base ctx + attempt) mod size_oa st
      | QuadraticProbing \<Rightarrow> (base ctx + attempt * attempt) mod size_oa st
      | DoubleHashing \<Rightarrow> (base ctx + attempt * step ctx) mod size_oa st)"

text \<open>\<open>this.table[index]\<close>: \<open>undefined\<close> (here \<open>None\<close>) beyond the end of the array.\<close>

definition entryAt :: "oa_state \<Rightarrow> nat \<Rightarrow> slot option" where
  "entryAt st index = (if index < length (table_oa st) then Some (table_oa st ! index) else None)"

function directInsert_loop :: "oa_state \<Rightarrow> jstring \<Rightarrow> probe_context \<Rightarrow> nat \<Rightarrow> error + oa_state" where
  "directInsert_loop st key ctx attempt =
     (if attempt < size_oa st
      then let index = probeInfo st ctx attempt;
               entry = entryAt st index
           in if entry = Some Empty \<or> entry = Some Tombstone
              then Inr (st\<lparr>table_oa := (table_oa st)[index := Occupied key],
                          count_oa := count_oa st + 1,
                          tombstones := (if entry = Some Tombstone then tombstones st - 1
                                         else tombstones st)\<rparr>)
              else directInsert_loop st key ctx (attempt + 1)
      else Inl RehashFailed)"
  by pat_completeness auto
termination
  by (relation "measure (\<lambda>(st, key, ctx, attempt). size_oa st - attempt)") auto

definition directInsert :: "oa_state \<Rightarrow> jstring \<Rightarrow> error + oa_state" where
  "directInsert st key = directInsert_loop st key (createContext st key) 0"

text \<open>\<open>entries.forEach((entry) => this.directInsert(entry))\<close>: the first throw ends it.\<close>

fun reinsertAll :: "oa_state \<Rightarrow> jstring list \<Rightarrow> error + oa_state" where
  "reinsertAll st [] = Inr st"
| "reinsertAll st (entry # entries) =
     (case directInsert st entry of
        Inl e \<Rightarrow> Inl e
      | Inr st' \<Rightarrow> reinsertAll st' entries)"

fun liveEntries :: "slot list \<Rightarrow> jstring list" where
  "liveEntries [] = []"
| "liveEntries (Occupied key # rest) = key # liveEntries rest"
| "liveEntries (_ # rest) = liveEntries rest"

definition rehash_oa :: "oa_state \<Rightarrow> nat \<Rightarrow> error + oa_state" where
  "rehash_oa st newSize =
     reinsertAll
       (st\<lparr>size_oa := newSize, table_oa := replicate newSize Empty,
           count_oa := 0, tombstones := 0\<rparr>)
       (liveEntries (table_oa st))"

definition ensureCapacityBeforeInsert :: "oa_state \<Rightarrow> error + oa_state" where
  "ensureCapacityBeforeInsert st =
     (if loadAbove st 68
      then let target = nextPrime (ceil_times_1_6 (size_oa st))
           in if target \<noteq> size_oa st then rehash_oa st target else Inr st
      else if occupancyAbove st 85 \<and> tombstonesAbove st 15
           then rehash_oa st (size_oa st)
           else Inr st)"

definition maintainAfterInsert :: "oa_state \<Rightarrow> error + oa_state" where
  "maintainAfterInsert st =
     (let target = nextPrime (ceil_times_1_35 (size_oa st))
      in if loadAbove st 72 \<and> target \<noteq> size_oa st then rehash_oa st target
         else if occupancyAbove st 88 \<and> tombstonesAbove st 18
              then rehash_oa st (size_oa st)
              else Inr st)"

definition maintainAfterRemoval_oa :: "oa_state \<Rightarrow> error + oa_state" where
  "maintainAfterRemoval_oa st =
     (if MIN_TABLE_SIZE < size_oa st
      then let target = previousPrime (max MIN_TABLE_SIZE (floor_div_1_6 (size_oa st)))
           in if 0 < count_oa st \<and> loadBelow st 30 \<and> target < size_oa st
              then rehash_oa st target
              else if tombstonesAbove st 25 \<and> count_oa st < tombstones st
                   then rehash_oa st (size_oa st)
                   else Inr st
      else Inr st)"

text \<open>
  Writing the key into \<open>target\<close>, as both placing branches of \<open>insert\<close> do:
  \<open>previous = this.table[target]\<close>, the store, \<open>count += 1\<close>, and
  \<open>tombstones -= 1\<close> when \<open>previous\<close> was the tombstone; then \<open>maintainAfterInsert\<close>.
\<close>

definition placeAt :: "oa_state \<Rightarrow> nat \<Rightarrow> jstring \<Rightarrow> oa_state" where
  "placeAt st target key =
     st\<lparr>table_oa := (table_oa st)[target := Occupied key],
        count_oa := count_oa st + 1,
        tombstones := (if entryAt st target = Some Tombstone then tombstones st - 1
                       else tombstones st)\<rparr>"

definition placeAndMaintain :: "oa_state \<Rightarrow> nat \<Rightarrow> jstring \<Rightarrow> error + oa_state \<times> status" where
  "placeAndMaintain st target key =
     (case maintainAfterInsert (placeAt st target key) of
        Inl e \<Rightarrow> Inl e
      | Inr st' \<Rightarrow> Inr (st', Inserted))"

text \<open>
  The probe loop of \<open>insert\<close>. \<open>firstTombstone\<close> is \<open>-1\<close> in the source until a
  tombstone is seen; here \<open>None\<close>. The loop either returns (\<open>Inl\<close>) or falls through
  with the value of \<open>firstTombstone\<close> (\<open>Inr\<close>).
\<close>

function insert_loop ::
  "oa_state \<Rightarrow> jstring \<Rightarrow> probe_context \<Rightarrow> nat \<Rightarrow> nat option \<Rightarrow> (error + oa_state \<times> status) + nat option"
where
  "insert_loop st key ctx attempt firstTombstone =
     (if attempt < size_oa st
      then let index = probeInfo st ctx attempt;
               entry = entryAt st index
           in if entry = Some (Occupied key) then Inl (Inr (st, Duplicate))
              else if entry = Some Empty
                   then Inl (placeAndMaintain st
                               (case firstTombstone of Some t \<Rightarrow> t | None \<Rightarrow> index) key)
                   else insert_loop st key ctx (attempt + 1)
                          (if entry = Some Tombstone \<and> firstTombstone = None then Some index
                           else firstTombstone)
      else Inr firstTombstone)"
  by pat_completeness auto
termination
  by (relation "measure (\<lambda>(st, key, ctx, attempt, firstTombstone). size_oa st - attempt)") auto

text \<open>
  \<open>insert\<close> calls itself after the rehash of the saturated branch, with nothing that
  bounds the number of calls: a partial function, \<open>None\<close> when it does not return.
  \<open>Some (Inl e)\<close> is a throw, \<open>Some (Inr (st, s))\<close> a return with status \<open>s\<close> that
  leaves state \<open>st\<close>.
\<close>

partial_function (option) insert_oa ::
  "oa_state \<Rightarrow> jstring \<Rightarrow> (error + oa_state \<times> status) option"
where
  "insert_oa st rawKey =
     (let key = normaliseKey rawKey
      in case ensureCapacityBeforeInsert st of
           Inl e \<Rightarrow> Some (Inl e)
         | Inr st1 \<Rightarrow>
             (case insert_loop st1 key (createContext st1 key) 0 None of
                Inl result \<Rightarrow> Some result
              | Inr (Some firstTombstone) \<Rightarrow> Some (placeAndMaintain st1 firstTombstone key)
              | Inr None \<Rightarrow>
                  (case rehash_oa st1 (nextPrime (ceil_times_1_6 (size_oa st1))) of
                     Inl e \<Rightarrow> Some (Inl e)
                   | Inr st2 \<Rightarrow> insert_oa st2 key)))"

function search_loop :: "oa_state \<Rightarrow> jstring \<Rightarrow> probe_context \<Rightarrow> nat \<Rightarrow> status" where
  "search_loop st key ctx attempt =
     (if attempt < size_oa st
      then let index = probeInfo st ctx attempt;
               entry = entryAt st index
           in if entry = Some (Occupied key) then Found
              else if entry = Some Empty then Missing
              else search_loop st key ctx (attempt + 1)
      else Missing)"
  by pat_completeness auto
termination
  by (relation "measure (\<lambda>(st, key, ctx, attempt). size_oa st - attempt)") auto

text \<open>
  \<open>search\<close> assigns no field; the model still returns the state, so that all three
  operations have the same shape.
\<close>

definition search_oa :: "oa_state \<Rightarrow> jstring \<Rightarrow> oa_state \<times> status" where
  "search_oa st rawKey =
     (let key = normaliseKey rawKey
      in (st, search_loop st key (createContext st key) 0))"

function remove_loop ::
  "oa_state \<Rightarrow> jstring \<Rightarrow> probe_context \<Rightarrow> nat \<Rightarrow> error + oa_state \<times> status"
where
  "remove_loop st key ctx attempt =
     (if attempt < size_oa st
      then let index = probeInfo st ctx attempt;
               entry = entryAt st index
           in if entry = Some (Occupied key)
              then (case maintainAfterRemoval_oa
                           (st\<lparr>table_oa := (table_oa st)[index := Tombstone],
                               count_oa := count_oa st - 1,
                               tombstones := tombstones st + 1\<rparr>) of
                      Inl e \<Rightarrow> Inl e
                    | Inr st' \<Rightarrow> Inr (st', Removed))
              else if entry = Some Empty then Inr (st, Missing)
              else remove_loop st key ctx (attempt + 1)
      else Inr (st, Missing))"
  by pat_completeness auto
termination
  by (relation "measure (\<lambda>(st, key, ctx, attempt). size_oa st - attempt)") auto

definition remove_oa :: "oa_state \<Rightarrow> jstring \<Rightarrow> error + oa_state \<times> status" where
  "remove_oa st rawKey =
     (let key = normaliseKey rawKey
      in remove_loop st key (createContext st key) 0)"


section \<open>Separate chaining\<close>

record ch_state =
  size_ch :: nat
  table_ch :: "jstring list list"
  count_ch :: int

definition clear_ch :: "nat \<Rightarrow> ch_state" where
  "clear_ch sz = \<lparr>size_ch = sz, table_ch = replicate sz [], count_ch = 0\<rparr>"

text \<open>
  \<open>this.table[index]\<close> is a bucket; outside the array it is \<open>undefined\<close>, and the
  method call on it throws a TypeError. For size 0 the index is \<open>NaN\<close>.
\<close>

definition bucketAt :: "ch_state \<Rightarrow> nat \<Rightarrow> jstring list option" where
  "bucketAt st index =
     (if size_ch st \<noteq> 0 \<and> index < length (table_ch st) then Some (table_ch st ! index)
      else None)"

text \<open>\<open>bucket.push(key); this.count += 1\<close>, for the bucket at \<open>index\<close>.\<close>

definition pushKey :: "ch_state \<Rightarrow> nat \<Rightarrow> jstring \<Rightarrow> ch_state" where
  "pushKey st index key =
     st\<lparr>table_ch := (table_ch st)[index := table_ch st ! index @ [key]],
        count_ch := count_ch st + 1\<rparr>"

definition insertInternal :: "ch_state \<Rightarrow> jstring \<Rightarrow> error + ch_state" where
  "insertInternal st key =
     (let index = primaryIndex (size_ch st) key
      in case bucketAt st index of
           None \<Rightarrow> Inl TypeError
         | Some bucket \<Rightarrow> Inr (pushKey st index key))"

fun insertAll :: "ch_state \<Rightarrow> jstring list \<Rightarrow> error + ch_state" where
  "insertAll st [] = Inr st"
| "insertAll st (entry # entries) =
     (case insertInternal st entry of
        Inl e \<Rightarrow> Inl e
      | Inr st' \<Rightarrow> insertAll st' entries)"

definition rehash_ch :: "ch_state \<Rightarrow> nat \<Rightarrow> error + ch_state" where
  "rehash_ch st newSize =
     insertAll
       (st\<lparr>size_ch := newSize, table_ch := replicate newSize [], count_ch := 0\<rparr>)
       (concat (table_ch st))"

text \<open>
  The chaining policies divide \<open>count\<close> by \<open>size\<close> without a check for 0, so the
  quotient is an infinity or \<open>NaN\<close> there.
\<close>

definition loadAbove_ch :: "ch_state \<Rightarrow> int \<Rightarrow> bool" where
  \<comment> \<open>\<open>this.count / this.size > pct / 100\<close>\<close>
  "loadAbove_ch st pct \<longleftrightarrow>
     (if size_ch st = 0 then 0 < count_ch st
      else pct * int (size_ch st) < count_ch st * 100)"

definition loadBelow_ch :: "ch_state \<Rightarrow> int \<Rightarrow> bool" where
  \<comment> \<open>\<open>this.count / this.size < pct / 100\<close>\<close>
  "loadBelow_ch st pct \<longleftrightarrow>
     (if size_ch st = 0 then count_ch st < 0
      else count_ch st * 100 < pct * int (size_ch st))"

definition maxChain :: "ch_state \<Rightarrow> nat" where
  "maxChain st = foldl (\<lambda>m bucket. if m < length bucket then length bucket else m) 0 (table_ch st)"

definition maintainAfterInsert_ch :: "ch_state \<Rightarrow> error + ch_state" where
  "maintainAfterInsert_ch st =
     (if loadAbove_ch st 115 \<or> 4 < maxChain st
      then let targetSize = nextPrime (ceil_times_1_6 (size_ch st))
           in if targetSize \<noteq> size_ch st then rehash_ch st targetSize else Inr st
      else Inr st)"

definition maintainAfterRemoval_ch :: "ch_state \<Rightarrow> error + ch_state" where
  "maintainAfterRemoval_ch st =
     (if MIN_TABLE_SIZE < size_ch st \<and> loadBelow_ch st 45
      then let target = previousPrime (max MIN_TABLE_SIZE (floor_div_1_5 (size_ch st)))
           in if target < size_ch st then rehash_ch st target else Inr st
      else Inr st)"

definition insert_ch :: "ch_state \<Rightarrow> jstring \<Rightarrow> error + ch_state \<times> status" where
  "insert_ch st rawKey =
     (let key = normaliseKey rawKey;
          index = primaryIndex (size_ch st) key
      in case bucketAt st index of
           None \<Rightarrow> Inl TypeError
         | Some bucket \<Rightarrow>
             if key \<in> set bucket then Inr (st, Duplicate)
             else (case maintainAfterInsert_ch (pushKey st index key) of
                     Inl e \<Rightarrow> Inl e
                   | Inr st' \<Rightarrow> Inr (st', Inserted)))"

definition search_ch :: "ch_state \<Rightarrow> jstring \<Rightarrow> error + ch_state \<times> status" where
  "search_ch st rawKey =
     (let key = normaliseKey rawKey;
          index = primaryIndex (size_ch st) key
      in case bucketAt st index of
           None \<Rightarrow> Inl TypeError
         | Some bucket \<Rightarrow> if key \<in> set bucket then Inr (st, Found) else Inr (st, Missing))"

text \<open>\<open>bucket.splice(position, 1)\<close> at the first position of the key.\<close>

definition remove_ch :: "ch_state \<Rightarrow> jstring \<Rightarrow> error + ch_state \<times> status" where
  "remove_ch st rawKey =
     (let key = normaliseKey rawKey;
          index = primaryIndex (size_ch st) key
      in case bucketAt st index of
           None \<Rightarrow> Inl TypeError
         | Some bucket \<Rightarrow>
             if key \<notin> set bucket then Inr (st, Missing)
             else (case maintainAfterRemoval_ch
                          (st\<lparr>table_ch := (table_ch st)[index := remove1 key bucket],
                              count_ch := count_ch st - 1\<rparr>) of
                     Inl e \<Rightarrow> Inl e
                   | Inr st' \<Rightarrow> Inr (st', Removed)))"


section \<open>Unfolding the loops one step at a time\<close>

text \<open>
  The defining equations of the loops rewrite a loop into itself; they are used one
  iteration at a time, instantiated at the current counter.
\<close>

declare bitlen.simps [simp del]
declare decimalDigits.simps [simp del]
declare shortestDigits.simps [simp del]
declare isPrime_loop.simps [simp del]
declare nextPrime_loop.simps [simp del]
declare previousPrime_loop.simps [simp del]
declare directInsert_loop.simps [simp del]
declare insert_loop.simps [simp del]
declare search_loop.simps [simp del]
declare remove_loop.simps [simp del]

text \<open>The slot that the probe sequence of \<open>key\<close> visits at attempt \<open>attempt\<close>.\<close>

definition probeSlot :: "oa_state \<Rightarrow> jstring \<Rightarrow> nat \<Rightarrow> slot option" where
  "probeSlot st key attempt = entryAt st (probeInfo st (createContext st key) attempt)"

text \<open>A key is findable when its probe meets it before any empty slot.\<close>

definition findable :: "oa_state \<Rightarrow> jstring \<Rightarrow> bool" where
  "findable st key \<longleftrightarrow>
     (\<exists>a < size_oa st. probeSlot st key a = Some (Occupied key) \<and>
        (\<forall>a' < a. probeSlot st key a' \<noteq> Some Empty))"

text \<open>Chaining: a key is stored when it sits in the bucket its hash names.\<close>

definition stored :: "ch_state \<Rightarrow> jstring \<Rightarrow> bool" where
  "stored st key \<longleftrightarrow>
     size_ch st \<noteq> 0 \<and> length (table_ch st) = size_ch st \<and>
     key \<in> set (table_ch st ! primaryIndex (size_ch st) key)"

text \<open>A chaining table of size 3 that holds the keys \<open>ks\<close>, with an accurate count.\<close>

definition holds3 :: "ch_state \<Rightarrow> jstring list \<Rightarrow> bool" where
  "holds3 st ks \<longleftrightarrow>
     size_ch st = 3 \<and> length (table_ch st) = 3 \<and> count_ch st = int (length ks) \<and>
     length (concat (table_ch st)) = length ks \<and> set (concat (table_ch st)) = set ks"

text \<open>
  A linear-probing table at the maximum size with \<open>m\<close> live keys, the set \<open>S\<close>, and no
  tombstone.
\<close>

definition linearFilled :: "oa_state \<Rightarrow> nat \<Rightarrow> jstring set \<Rightarrow> bool" where
  "linearFilled st m S \<longleftrightarrow>
     variant st = LinearProbing \<and> size_oa st = 199 \<and> length (table_oa st) = 199 \<and>
     Tombstone \<notin> set (table_oa st) \<and> tombstones st = 0 \<and> count_oa st = int m \<and>
     length (liveEntries (table_oa st)) = m \<and> set (liveEntries (table_oa st)) = S"

text \<open>
  A sequence of inserts, one after the other: \<open>None\<close> when one of them does not return,
  \<open>Some (Inl e)\<close> when one throws, else the state the last one leaves.
\<close>

fun insertKeys :: "oa_state \<Rightarrow> jstring list \<Rightarrow> (error + oa_state) option" where
  "insertKeys st [] = Some (Inr st)"
| "insertKeys st (rawKey # rest) =
     (case insert_oa st rawKey of
        None \<Rightarrow> None
      | Some (Inl e) \<Rightarrow> Some (Inl e)
      | Some (Inr (st', s)) \<Rightarrow> insertKeys st' rest)"

definition returned :: "(error + oa_state) option \<Rightarrow> bool" where
  "returned r = (case r of Some (Inr st) \<Rightarrow> True | _ \<Rightarrow> False)"

text \<open>The key made of \<open>n\<close> letters \<open>a\<close>.\<close>

definition repeated_a :: "nat \<Rightarrow> jstring" where
  "repeated_a n = replicate n 0x61"

text \<open>Evaluating the hash of a concrete key.\<close>

lemmas key_eval =
  hashCode_def normaliseKey_def trim_def ascii_def isWhiteSpace_def matchesInteger_def
  digitsOf_def isNegative_def isDigit_def


lemmas oa_eval =
  clear_oa_def ensureCapacityBeforeInsert_def maintainAfterInsert_def
  maintainAfterRemoval_oa_def loadAbove_def loadBelow_def occupancyAbove_def
  tombstonesAbove_def createContext_def probeInfo_def probeSlot_def entryAt_def
  primaryIndex_def secondaryStep_def placeAt_def placeAndMaintain_def rehash_oa_def
  directInsert_def insert_loop.simps directInsert_loop.simps search_loop.simps
  remove_loop.simps search_oa_def remove_oa_def Let_def

lemma replicate3: "replicate 3 x = [x, x, x]"
  by (simp add: numeral_3_eq_3)

lemma hash_a: "hashCode (ascii ''a'') = 0xe40c292c"
  by (simp add: key_eval)

lemma hash_b: "hashCode (ascii ''b'') = 0xe70c2de5"
  by (simp add: key_eval)

lemma normalise_a: "normaliseKey (ascii ''a'') = ascii ''a''"
  by (simp add: key_eval)

lemma normalise_b: "normaliseKey (ascii ''b'') = ascii ''b''"
  by (simp add: key_eval)

lemma ceil_times_1_35_values:
  "ceil_times_1_35 3 = 5" "ceil_times_1_35 5 = 7" "ceil_times_1_35 7 = 10"
  "ceil_times_1_35 11 = 15" "ceil_times_1_35 13 = 18" "ceil_times_1_35 17 = 23"
  "ceil_times_1_35 199 = 269"
  by (simp_all add: ceil_times_1_35_def toDouble_def bitlen.simps Let_def)

lemmas prime_eval =
  nextPrime_def previousPrime_def clampTableSize_def MIN_TABLE_SIZE_def MAX_TABLE_SIZE_def
  isPrime_def isPrime_loop.simps nextPrime_loop.simps previousPrime_loop.simps
  ceil_times_1_6_def ceil_times_1_35_values floor_div_1_6_def floor_div_1_5_def

lemma hash_c: "hashCode (ascii ''c'') = 0xe60c2c52"
  by (simp add: key_eval)

lemma normalise_c: "normaliseKey (ascii ''c'') = ascii ''c''"
  by (simp add: key_eval)

lemma replicate_numeral: "replicate (numeral k) x = x # replicate (pred_numeral k) x"
  by (simp add: numeral_eq_Suc)

lemma list_update_Cons_numeral: "(x # xs)[numeral k := y] = x # xs[pred_numeral k := y]"
  by (simp add: numeral_eq_Suc)

lemmas list_eval = replicate_numeral list_update_Cons_numeral

lemma hash_d: "hashCode (ascii ''d'') = 0xe10c2473"
  by (simp add: key_eval)

lemma normalise_d: "normaliseKey (ascii ''d'') = ascii ''d''"
  by (simp add: key_eval)

lemma hash_f: "hashCode (ascii ''f'') = 0xe30c2799"
  by (simp add: key_eval)

lemma normalise_f: "normaliseKey (ascii ''f'') = ascii ''f''"
  by (simp add: key_eval)

lemma hash_e: "hashCode (ascii ''e'') = 0xe00c22e0"
  by (simp add: key_eval)

lemma normalise_e: "normaliseKey (ascii ''e'') = ascii ''e''"
  by (simp add: key_eval)

lemma hash_k: "hashCode (ascii ''k'') = 0xee0c38ea"
  by (simp add: key_eval)

lemma normalise_k: "normaliseKey (ascii ''k'') = ascii ''k''"
  by (simp add: key_eval)

lemma hash_p: "hashCode (ascii ''p'') = 0xf50c43ef"
  by (simp add: key_eval)

lemma normalise_p: "normaliseKey (ascii ''p'') = ascii ''p''"
  by (simp add: key_eval)

lemma hash_y: "hashCode (ascii ''y'') = 0xfc0c4ef4"
  by (simp add: key_eval)

lemma normalise_y: "normaliseKey (ascii ''y'') = ascii ''y''"
  by (simp add: key_eval)

lemma hash_h: "hashCode (ascii ''h'') = 0xed0c3757"
  by (simp add: key_eval)

lemma normalise_h: "normaliseKey (ascii ''h'') = ascii ''h''"
  by (simp add: key_eval)

lemma hash_l: "hashCode (ascii ''l'') = 0xe90c310b"
  by (simp add: key_eval)

lemma normalise_l: "normaliseKey (ascii ''l'') = ascii ''l''"
  by (simp add: key_eval)


lemmas ch_eval =
  clear_ch_def bucketAt_def pushKey_def insertInternal_def rehash_ch_def loadAbove_ch_def
  loadBelow_ch_def
  maxChain_def maintainAfterInsert_ch_def maintainAfterRemoval_ch_def insert_ch_def
  search_ch_def remove_ch_def primaryIndex_def Let_def

lemma of_char_less: "(of_char c :: nat) < 65536"
proof -
  have "(of_char c :: nat) mod 256 < 256" by (rule mod_less_divisor) simp
  then have "(of_char c :: nat) < 256" by (simp only: of_char_mod_256)
  then show ?thesis by (rule less_trans) simp
qed

lemma unat_of_char: "unat (of_nat (of_char c) :: 16 word) = of_char c"
  using of_char_less [of c] by (simp add: unat_of_nat)

lemma inj_ascii_char: "inj (\<lambda>c. (of_nat (of_char c) :: 16 word))"
proof (rule injI)
  fix c d :: char
  assume "(of_nat (of_char c) :: 16 word) = of_nat (of_char d)"
  then have "unat (of_nat (of_char c) :: 16 word) = unat (of_nat (of_char d) :: 16 word)"
    by (rule arg_cong)
  then have "(of_char c :: nat) = of_char d" by (simp only: unat_of_char)
  then show "c = d" by (simp only: of_char_eq_iff)
qed

lemma ascii_eq_iff: "ascii s = ascii t \<longleftrightarrow> s = t"
  unfolding ascii_def by (rule inj_map_eq_map [OF inj_ascii_char])

section \<open>The double-hashing step\<close>

text \<open>
  Claim C8. For every key and every table size of at least 2, \<open>secondaryStep\<close> returns a
  value between 1 and \<open>size - 1\<close>, so never 0; for size 7 the step lies between 1 and 6
  for every key.
\<close>

theorem secondaryStep_range:
  "(2 \<le> sz \<longrightarrow> 1 \<le> secondaryStep sz key \<and> secondaryStep sz key \<le> sz - 1 \<and>
      secondaryStep sz key \<noteq> 0) \<and>
   1 \<le> secondaryStep 7 key \<and> secondaryStep 7 key \<le> 6"
proof -
  have range: "1 \<le> secondaryStep n key \<and> secondaryStep n key \<le> n - 1" if n: "2 \<le> n" for n
  proof -
    let ?h = "unat (hashCode key)"
    have "?h mod (n - 1) < n - 1" using n by simp
    then have "1 + ?h mod (n - 1) \<le> n - 1" by simp
    moreover have "secondaryStep n key = 1 + ?h mod (n - 1)"
      using n by (simp add: secondaryStep_def Let_def)
    ultimately show ?thesis by simp
  qed
  from range [of sz] range [of 7] show ?thesis by auto
qed

theorem secondaryStep_range_witness:
  "(2::nat) \<le> 7 \<and> secondaryStep 7 (ascii ''a'') = 5 \<and>
   1 \<le> secondaryStep 7 (ascii ''a'') \<and> secondaryStep 7 (ascii ''a'') \<le> 7 - 1"
  using secondaryStep_range [of 7 "ascii ''a''"]
  by (simp add: secondaryStep_def hash_a)

section \<open>Searching an open-addressing table\<close>

lemma search_loop_found:
  "at \<le> a \<Longrightarrow> a < size_oa st \<Longrightarrow>
   entryAt st (probeInfo st ctx a) = Some (Occupied key) \<Longrightarrow>
   (\<And>a'. at \<le> a' \<Longrightarrow> a' < a \<Longrightarrow> entryAt st (probeInfo st ctx a') \<noteq> Some Empty) \<Longrightarrow>
   search_loop st key ctx at = Found"
proof (induction st key ctx at rule: search_loop.induct)
  case (1 st key ctx attempt)
  show ?case
  proof (cases "attempt = a")
    case True
    with "1.prems" show ?thesis by (subst search_loop.simps) simp
  next
    case False
    with "1.prems" have lt: "attempt < a" by simp
    then have ne: "entryAt st (probeInfo st ctx attempt) \<noteq> Some Empty"
      using "1.prems"(4) [of attempt] by simp
    show ?thesis
    proof (cases "entryAt st (probeInfo st ctx attempt) = Some (Occupied key)")
      case True
      with lt "1.prems" show ?thesis by (subst search_loop.simps) simp
    next
      case nk: False
      have "search_loop st key ctx (attempt + 1) = Found"
        using "1.IH" [OF _ refl refl nk ne] lt "1.prems" by simp
      with nk ne lt "1.prems" show ?thesis by (subst search_loop.simps) simp
    qed
  qed
qed

lemma search_loop_missing:
  "(\<And>a'. at \<le> a' \<Longrightarrow> a' < a \<Longrightarrow> entryAt st (probeInfo st ctx a') \<noteq> Some (Occupied key)) \<Longrightarrow>
   size_oa st \<le> a \<or> (at \<le> a \<and> entryAt st (probeInfo st ctx a) = Some Empty) \<Longrightarrow>
   search_loop st key ctx at = Missing"
proof (induction st key ctx at rule: search_loop.induct)
  case (1 st key ctx attempt)
  show ?case
  proof (cases "attempt < size_oa st")
    case False
    then show ?thesis by (subst search_loop.simps) simp
  next
    case inb: True
    show ?thesis
    proof (cases "attempt < a")
      case False
      with "1.prems"(2) inb have "attempt = a" "entryAt st (probeInfo st ctx a) = Some Empty"
        by auto
      with inb show ?thesis by (subst search_loop.simps) simp
    next
      case lt: True
      then have nk: "entryAt st (probeInfo st ctx attempt) \<noteq> Some (Occupied key)"
        using "1.prems"(1) [of attempt] by simp
      show ?thesis
      proof (cases "entryAt st (probeInfo st ctx attempt) = Some Empty")
        case True
        with inb nk show ?thesis by (subst search_loop.simps) simp
      next
        case ne: False
        have "search_loop st key ctx (attempt + 1) = Missing"
          using "1.IH" [OF inb refl refl nk ne] "1.prems" lt by auto
        with inb nk ne show ?thesis by (subst search_loop.simps) simp
      qed
    qed
  qed
qed

text \<open>The slot index of an attempt, written out for each variant.\<close>

lemma probeInfo_createContext:
  "probeInfo st (createContext st key) attempt =
     (case variant st of
        LinearProbing \<Rightarrow> (unat (hashCode key) mod size_oa st + attempt) mod size_oa st
      | QuadraticProbing \<Rightarrow>
          (unat (hashCode key) mod size_oa st + attempt * attempt) mod size_oa st
      | DoubleHashing \<Rightarrow>
          (unat (hashCode key) mod size_oa st
             + attempt * (if size_oa st \<le> 1 then 1
                          else 1 + unat (hashCode key) mod (size_oa st - 1)))
          mod size_oa st)"
  by (cases "variant st")
     (simp_all add: probeInfo_def createContext_def primaryIndex_def secondaryStep_def Let_def)

text \<open>
  Claim C5. Open-addressing \<open>search\<close> leaves the state (table, size, count and
  tombstones) as it was, so it never rehashes. It probes in the order of its strategy:
  with \<open>h\<close> the hash of the normalised key, attempt \<open>a\<close> reads the slot
  \<open>(h mod size + a) mod size\<close> for linear probing, \<open>(h mod size + a * a) mod size\<close> for
  quadratic probing and \<open>(h mod size + a * (1 + h mod (size - 1))) mod size\<close> for double
  hashing (the step is 1 for a size up to 1). It returns \<open>found\<close> at a slot that holds
  the key when no earlier slot of the sequence is empty, \<open>missing\<close> at an empty slot
  when no earlier slot of the sequence holds the key, and \<open>missing\<close> when none of the
  \<open>size\<close> attempts meets an empty slot or the key.
\<close>

theorem search_oa_frame_and_result:
  assumes key: "key = normaliseKey rawKey"
    and index: "index = (\<lambda>attempt.
        case variant st of
          LinearProbing \<Rightarrow> (unat (hashCode key) mod size_oa st + attempt) mod size_oa st
        | QuadraticProbing \<Rightarrow>
            (unat (hashCode key) mod size_oa st + attempt * attempt) mod size_oa st
        | DoubleHashing \<Rightarrow>
            (unat (hashCode key) mod size_oa st
               + attempt * (if size_oa st \<le> 1 then 1
                            else 1 + unat (hashCode key) mod (size_oa st - 1)))
            mod size_oa st)"
    and slot: "slot = (\<lambda>attempt.
        if index attempt < length (table_oa st) then Some (table_oa st ! index attempt)
        else None)"
  shows "fst (search_oa st rawKey) = st \<and>
   (\<forall>a < size_oa st.
      slot a = Some (Occupied key) \<and> (\<forall>a' < a. slot a' \<noteq> Some Empty)
      \<longrightarrow> snd (search_oa st rawKey) = Found) \<and>
   (\<forall>a < size_oa st.
      slot a = Some Empty \<and> (\<forall>a' < a. slot a' \<noteq> Some (Occupied key))
      \<longrightarrow> snd (search_oa st rawKey) = Missing) \<and>
   ((\<forall>a < size_oa st. slot a \<noteq> Some Empty \<and> slot a \<noteq> Some (Occupied key))
      \<longrightarrow> snd (search_oa st rawKey) = Missing)"
proof -
  have slot_eq: "slot a = entryAt st (probeInfo st (createContext st key) a)" for a
    by (simp add: slot index entryAt_def probeInfo_createContext)
  have result: "snd (search_oa st rawKey) = search_loop st key (createContext st key) 0"
    by (simp add: search_oa_def Let_def key)
  show ?thesis
  proof (intro conjI allI impI)
    show "fst (search_oa st rawKey) = st" by (simp add: search_oa_def Let_def)
  next
    fix a
    assume "a < size_oa st"
      and "slot a = Some (Occupied key) \<and> (\<forall>a' < a. slot a' \<noteq> Some Empty)"
    then show "snd (search_oa st rawKey) = Found"
      by (simp add: result slot_eq search_loop_found [where a = a])
  next
    fix a
    assume "a < size_oa st"
      and "slot a = Some Empty \<and> (\<forall>a' < a. slot a' \<noteq> Some (Occupied key))"
    then show "snd (search_oa st rawKey) = Missing"
      by (simp add: result slot_eq search_loop_missing [where a = a])
  next
    assume "\<forall>a < size_oa st. slot a \<noteq> Some Empty \<and> slot a \<noteq> Some (Occupied key)"
    then show "snd (search_oa st rawKey) = Missing"
      by (simp add: result slot_eq search_loop_missing [where a = "size_oa st"])
  qed
qed

theorem search_oa_frame_and_result_witness:
  "search_oa \<lparr>variant = LinearProbing, size_oa = 3,
              table_oa = [Empty, Occupied (ascii ''a''), Empty],
              count_oa = 1, tombstones = 0\<rparr> (ascii ''a'')
     = (\<lparr>variant = LinearProbing, size_oa = 3,
          table_oa = [Empty, Occupied (ascii ''a''), Empty],
          count_oa = 1, tombstones = 0\<rparr>, Found) \<and>
   search_oa \<lparr>variant = LinearProbing, size_oa = 3,
              table_oa = [Empty, Occupied (ascii ''a''), Empty],
              count_oa = 1, tombstones = 0\<rparr> (ascii ''b'')
     = (\<lparr>variant = LinearProbing, size_oa = 3,
          table_oa = [Empty, Occupied (ascii ''a''), Empty],
          count_oa = 1, tombstones = 0\<rparr>, Missing) \<and>
   search_oa \<lparr>variant = LinearProbing, size_oa = 3,
              table_oa = [Tombstone, Occupied (ascii ''a''), Tombstone],
              count_oa = 1, tombstones = 2\<rparr> (ascii ''b'')
     = (\<lparr>variant = LinearProbing, size_oa = 3,
          table_oa = [Tombstone, Occupied (ascii ''a''), Tombstone],
          count_oa = 1, tombstones = 2\<rparr>, Missing) \<and>
   insertKeys (clear_oa QuadraticProbing 7) [ascii ''b'', ascii ''e'', ascii ''k'']
     = Some (Inr \<lparr>variant = QuadraticProbing, size_oa = 7,
                  table_oa = [Occupied (ascii ''e''), Empty, Empty, Occupied (ascii ''k''),
                              Empty, Empty, Occupied (ascii ''b'')],
                  count_oa = 3, tombstones = 0\<rparr>) \<and>
   search_oa \<lparr>variant = QuadraticProbing, size_oa = 7,
              table_oa = [Occupied (ascii ''e''), Empty, Empty, Occupied (ascii ''k''),
                          Empty, Empty, Occupied (ascii ''b'')],
              count_oa = 3, tombstones = 0\<rparr> (ascii ''k'')
     = (\<lparr>variant = QuadraticProbing, size_oa = 7,
          table_oa = [Occupied (ascii ''e''), Empty, Empty, Occupied (ascii ''k''),
                      Empty, Empty, Occupied (ascii ''b'')],
          count_oa = 3, tombstones = 0\<rparr>, Found) \<and>
   insertKeys (clear_oa DoubleHashing 7) [ascii ''b'', ascii ''e'']
     = Some (Inr \<lparr>variant = DoubleHashing, size_oa = 7,
                  table_oa = [Empty, Empty, Occupied (ascii ''e''), Empty, Empty, Empty,
                              Occupied (ascii ''b'')],
                  count_oa = 2, tombstones = 0\<rparr>) \<and>
   search_oa \<lparr>variant = DoubleHashing, size_oa = 7,
              table_oa = [Empty, Empty, Occupied (ascii ''e''), Empty, Empty, Empty,
                          Occupied (ascii ''b'')],
              count_oa = 2, tombstones = 0\<rparr> (ascii ''e'')
     = (\<lparr>variant = DoubleHashing, size_oa = 7,
          table_oa = [Empty, Empty, Occupied (ascii ''e''), Empty, Empty, Empty,
                      Occupied (ascii ''b'')],
          count_oa = 2, tombstones = 0\<rparr>, Found)"
proof -
  let ?A = "\<lparr>variant = LinearProbing, size_oa = 3,
             table_oa = [Empty, Occupied (ascii ''a''), Empty],
             count_oa = 1, tombstones = 0\<rparr>"
  let ?B = "\<lparr>variant = LinearProbing, size_oa = 3,
             table_oa = [Tombstone, Occupied (ascii ''a''), Tombstone],
             count_oa = 1, tombstones = 2\<rparr>"
  let ?Q = "\<lparr>variant = QuadraticProbing, size_oa = 7,
             table_oa = [Occupied (ascii ''e''), Empty, Empty, Occupied (ascii ''k''),
                         Empty, Empty, Occupied (ascii ''b'')],
             count_oa = 3, tombstones = 0\<rparr>"
  let ?D = "\<lparr>variant = DoubleHashing, size_oa = 7,
             table_oa = [Empty, Empty, Occupied (ascii ''e''), Empty, Empty, Empty,
                         Occupied (ascii ''b'')],
             count_oa = 2, tombstones = 0\<rparr>"
  have less3: "a < 3 \<longleftrightarrow> a = 0 \<or> a = 1 \<or> a = 2" for a :: nat by auto
  have less2: "a < 2 \<longleftrightarrow> a = 0 \<or> a = 1" for a :: nat by auto
  note result = search_oa_frame_and_result [OF refl refl refl]
  note found = result [THEN conjunct2, THEN conjunct1, rule_format]
  note empty = result [THEN conjunct2, THEN conjunct2, THEN conjunct1, rule_format]
  note exhausted = result [THEN conjunct2, THEN conjunct2, THEN conjunct2, rule_format]
  have "snd (search_oa ?A (ascii ''a'')) = Found"
    by (rule found [of 0 ?A "ascii ''a''"]) (auto simp: normalise_a hash_a)
  moreover have "snd (search_oa ?A (ascii ''b'')) = Missing"
    by (rule empty [of 1 ?A "ascii ''b''"]) (auto simp: normalise_b hash_b ascii_eq_iff)
  moreover have "snd (search_oa ?B (ascii ''b'')) = Missing"
    by (rule exhausted [of ?B "ascii ''b''"]) (auto simp: normalise_b hash_b ascii_eq_iff less3)
  moreover have "snd (search_oa ?Q (ascii ''k'')) = Found"
    by (rule found [of 2 ?Q "ascii ''k''"]) (auto simp: normalise_k hash_k less2)
  moreover have "snd (search_oa ?D (ascii ''e'')) = Found"
    by (rule found [of 1 ?D "ascii ''e''"]) (auto simp: normalise_e hash_e)
  moreover have "fst (search_oa ?A (ascii ''a'')) = ?A" "fst (search_oa ?A (ascii ''b'')) = ?A"
    "fst (search_oa ?B (ascii ''b'')) = ?B" "fst (search_oa ?Q (ascii ''k'')) = ?Q"
    "fst (search_oa ?D (ascii ''e'')) = ?D"
    using result [THEN conjunct1] by blast+
  moreover have "insertKeys (clear_oa QuadraticProbing 7) [ascii ''b'', ascii ''e'', ascii ''k'']
      = Some (Inr ?Q)"
    by (simp add: insert_oa.simps oa_eval prime_eval list_eval normalise_b hash_b normalise_e
          hash_e normalise_k hash_k ascii_eq_iff)
  moreover have "insertKeys (clear_oa DoubleHashing 7) [ascii ''b'', ascii ''e''] = Some (Inr ?D)"
    by (simp add: insert_oa.simps oa_eval prime_eval list_eval normalise_b hash_b normalise_e
          hash_e ascii_eq_iff)
  ultimately show ?thesis by (simp add: prod_eq_iff)
qed

section \<open>The statuses of open-addressing insert\<close>

lemma placeAndMaintain_status:
  "placeAndMaintain st target key = Inr (st', s) \<Longrightarrow> s = Inserted"
  by (auto simp: placeAndMaintain_def split: sum.splits)

lemma insert_loop_status:
  "insert_loop st key ctx attempt ft = Inl (Inr (st', s)) \<Longrightarrow> s = Inserted \<or> s = Duplicate"
proof (induction st key ctx attempt ft rule: insert_loop.induct)
  case (1 st key ctx attempt firstTombstone)
  note unfold = insert_loop.simps [of st key ctx attempt firstTombstone]
  from "1.prems" have inb: "attempt < size_oa st" by (simp add: unfold split: if_splits)
  show ?case
  proof (cases "entryAt st (probeInfo st ctx attempt) = Some (Occupied key)")
    case True
    with "1.prems" inb show ?thesis by (simp add: unfold)
  next
    case nk: False
    show ?thesis
    proof (cases "entryAt st (probeInfo st ctx attempt) = Some Empty")
      case True
      with "1.prems" inb nk show ?thesis by (auto simp: unfold dest: placeAndMaintain_status)
    next
      case ne: False
      from "1.prems" inb nk ne
      have "insert_loop st key ctx (attempt + 1)
              (if entryAt st (probeInfo st ctx attempt) = Some Tombstone \<and> firstTombstone = None
               then Some (probeInfo st ctx attempt) else firstTombstone) = Inl (Inr (st', s))"
        by (simp add: unfold Let_def)
      from "1.IH" [OF inb refl refl nk ne this] show ?thesis .
    qed
  qed
qed

text \<open>
  Claim C10. In the auto-resizing open-addressing engine \<open>insert\<close> never reports
  \<open>full\<close>: whenever it returns, its status is \<open>inserted\<close> or \<open>duplicate\<close>.
\<close>

theorem insert_oa_never_full:
  "insert_oa st rawKey = Some (Inr (st', s)) \<Longrightarrow> s = Inserted \<or> s = Duplicate"
proof -
  assume ret: "insert_oa st rawKey = Some (Inr (st', s))"
  define P :: "oa_state \<Rightarrow> jstring \<Rightarrow> error + oa_state \<times> status \<Rightarrow> bool"
    where "P = (\<lambda>st0 raw0 r. \<forall>st' s. r = Inr (st', s) \<longrightarrow> s = Inserted \<or> s = Duplicate)"
  have "P st rawKey (Inr (st', s))"
  proof (rule insert_oa.raw_induct [where P = P, OF _ ret])
    fix insert_rec st0 raw0 r
    assume ih: "\<And>st1 raw1 y. insert_rec st1 raw1 = Some y \<Longrightarrow> P st1 raw1 y"
      and body: "(let key = normaliseKey raw0
         in case ensureCapacityBeforeInsert st0 of
              Inl e \<Rightarrow> Some (Inl e)
            | Inr st1 \<Rightarrow>
                (case insert_loop st1 key (createContext st1 key) 0 None of
                   Inl result \<Rightarrow> Some result
                 | Inr None \<Rightarrow>
                     (case rehash_oa st1 (nextPrime (ceil_times_1_6 (size_oa st1))) of
                        Inl e \<Rightarrow> Some (Inl e)
                      | Inr st2 \<Rightarrow> insert_rec st2 key)
                 | Inr (Some firstTombstone) \<Rightarrow> Some (placeAndMaintain st1 firstTombstone key))) = Some r"
    from ih have ih': "insert_rec st1 raw1 = Some (Inr (st', s)) \<Longrightarrow> s = Inserted \<or> s = Duplicate"
      for st1 raw1 st' s unfolding P_def by blast
    show "P st0 raw0 r"
      unfolding P_def
    proof (intro allI impI)
      fix st' s
      assume "r = Inr (st', s)"
      with body show "s = Inserted \<or> s = Duplicate"
        by (auto simp: Let_def split: sum.splits option.splits
                 dest: insert_loop_status placeAndMaintain_status ih')
    qed
  qed
  then show ?thesis unfolding P_def by blast
qed

theorem insert_oa_never_full_witness:
  "insert_oa (clear_oa QuadraticProbing 3) (ascii ''h'')
     = Some (Inr (\<lparr>variant = QuadraticProbing, size_oa = 3,
                    table_oa = [Empty, Occupied (ascii ''h''), Empty],
                    count_oa = 1, tombstones = 0\<rparr>, Inserted)) \<and>
   insert_oa \<lparr>variant = QuadraticProbing, size_oa = 3,
              table_oa = [Empty, Occupied (ascii ''h''), Empty],
              count_oa = 1, tombstones = 0\<rparr> (ascii ''l'')
     = Some (Inr (\<lparr>variant = QuadraticProbing, size_oa = 3,
                    table_oa = [Empty, Occupied (ascii ''h''), Occupied (ascii ''l'')],
                    count_oa = 2, tombstones = 0\<rparr>, Inserted)) \<and>
   ensureCapacityBeforeInsert
       \<lparr>variant = QuadraticProbing, size_oa = 3,
        table_oa = [Empty, Occupied (ascii ''h''), Occupied (ascii ''l'')],
        count_oa = 2, tombstones = 0\<rparr>
     = Inr \<lparr>variant = QuadraticProbing, size_oa = 3,
            table_oa = [Empty, Occupied (ascii ''h''), Occupied (ascii ''l'')],
            count_oa = 2, tombstones = 0\<rparr> \<and>
   insert_loop \<lparr>variant = QuadraticProbing, size_oa = 3,
                table_oa = [Empty, Occupied (ascii ''h''), Occupied (ascii ''l'')],
                count_oa = 2, tombstones = 0\<rparr>
       (ascii ''b'')
       (createContext \<lparr>variant = QuadraticProbing, size_oa = 3,
                       table_oa = [Empty, Occupied (ascii ''h''), Occupied (ascii ''l'')],
                       count_oa = 2, tombstones = 0\<rparr> (ascii ''b''))
       0 None
     = Inr None \<and>
   rehash_oa \<lparr>variant = QuadraticProbing, size_oa = 3,
              table_oa = [Empty, Occupied (ascii ''h''), Occupied (ascii ''l'')],
              count_oa = 2, tombstones = 0\<rparr>
       (nextPrime (ceil_times_1_6 3))
     = Inr \<lparr>variant = QuadraticProbing, size_oa = 5,
            table_oa = [Occupied (ascii ''l''), Occupied (ascii ''h''), Empty, Empty, Empty],
            count_oa = 2, tombstones = 0\<rparr> \<and>
   insert_oa \<lparr>variant = QuadraticProbing, size_oa = 3,
              table_oa = [Empty, Occupied (ascii ''h''), Occupied (ascii ''l'')],
              count_oa = 2, tombstones = 0\<rparr> (ascii ''b'')
     = Some (Inr (\<lparr>variant = QuadraticProbing, size_oa = 5,
                    table_oa = [Occupied (ascii ''l''), Occupied (ascii ''h''),
                                Occupied (ascii ''b''), Empty, Empty],
                    count_oa = 3, tombstones = 0\<rparr>, Inserted)) \<and>
   (Inserted = Inserted \<or> Inserted = Duplicate)"
proof -
  let ?B = "\<lparr>variant = QuadraticProbing, size_oa = 3,
             table_oa = [Empty, Occupied (ascii ''h''), Occupied (ascii ''l'')],
             count_oa = 2, tombstones = 0\<rparr>"
  let ?C = "\<lparr>variant = QuadraticProbing, size_oa = 5,
             table_oa = [Occupied (ascii ''l''), Occupied (ascii ''h''),
                         Occupied (ascii ''b''), Empty, Empty],
             count_oa = 3, tombstones = 0\<rparr>"
  have first: "insert_oa (clear_oa QuadraticProbing 3) (ascii ''h'')
     = Some (Inr (\<lparr>variant = QuadraticProbing, size_oa = 3,
                    table_oa = [Empty, Occupied (ascii ''h''), Empty],
                    count_oa = 1, tombstones = 0\<rparr>, Inserted))"
    by (simp add: insert_oa.simps oa_eval prime_eval list_eval normalise_h hash_h replicate3)
  have second: "insert_oa \<lparr>variant = QuadraticProbing, size_oa = 3,
              table_oa = [Empty, Occupied (ascii ''h''), Empty],
              count_oa = 1, tombstones = 0\<rparr> (ascii ''l'') = Some (Inr (?B, Inserted))"
    by (simp add: insert_oa.simps oa_eval prime_eval list_eval normalise_l hash_l ascii_eq_iff)
  have capacity: "ensureCapacityBeforeInsert ?B = Inr ?B"
    by (simp add: oa_eval)
  have probe: "insert_loop ?B (ascii ''b'') (createContext ?B (ascii ''b'')) 0 None = Inr None"
    by (simp add: oa_eval hash_b ascii_eq_iff)
  have rebuilt: "rehash_oa ?B (nextPrime (ceil_times_1_6 3))
     = Inr \<lparr>variant = QuadraticProbing, size_oa = 5,
            table_oa = [Occupied (ascii ''l''), Occupied (ascii ''h''), Empty, Empty, Empty],
            count_oa = 2, tombstones = 0\<rparr>"
    by (simp add: oa_eval prime_eval list_eval hash_h hash_l)
  have ret: "insert_oa ?B (ascii ''b'') = Some (Inr (?C, Inserted))"
    by (simp add: insert_oa.simps oa_eval prime_eval list_eval normalise_b hash_b hash_h hash_l
          ascii_eq_iff)
  from insert_oa_never_full [OF ret] first second capacity probe rebuilt ret
  show ?thesis by simp
qed

section \<open>The shrink policy of open-addressing remove\<close>

lemma previousPrime_loop_le: "previousPrime_loop c \<le> max c MIN_TABLE_SIZE"
proof (induction c rule: previousPrime_loop.induct)
  case (1 candidate)
  show ?case
  proof (cases "MIN_TABLE_SIZE \<le> candidate \<and> \<not> isPrime candidate")
    case True
    with "1.IH" have "previousPrime_loop (candidate - 2) \<le> max (candidate - 2) MIN_TABLE_SIZE"
      by simp
    moreover have "max (candidate - 2) MIN_TABLE_SIZE \<le> max candidate MIN_TABLE_SIZE"
      by linarith
    ultimately have "previousPrime_loop (candidate - 2) \<le> max candidate MIN_TABLE_SIZE"
      by (rule order_trans)
    moreover have "previousPrime_loop candidate = previousPrime_loop (candidate - 2)"
      using True by (subst previousPrime_loop.simps) simp
    ultimately show ?thesis by simp
  next
    case False
    then show ?thesis
      by (subst previousPrime_loop.simps) auto
  qed
qed

lemma previousPrime_le: "MIN_TABLE_SIZE \<le> v \<Longrightarrow> previousPrime v \<le> v"
proof -
  assume v: "MIN_TABLE_SIZE \<le> v"
  have c: "clampTableSize v \<le> v" using v by (simp add: clampTableSize_def)
  show ?thesis
  proof (cases "clampTableSize v \<le> MIN_TABLE_SIZE")
    case True
    with v show ?thesis by (simp add: previousPrime_def)
  next
    case False
    let ?c = "if clampTableSize v mod 2 = 0 then clampTableSize v - 1 else clampTableSize v"
    have "previousPrime v = previousPrime_loop ?c"
      using False by (simp add: previousPrime_def Let_def)
    also have "\<dots> \<le> max ?c MIN_TABLE_SIZE" by (rule previousPrime_loop_le)
    also have "\<dots> \<le> v" using c v False by auto
    finally show ?thesis .
  qed
qed

lemma shrink_target_less:
  "MIN_TABLE_SIZE < sz \<Longrightarrow> previousPrime (max MIN_TABLE_SIZE (floor_div_1_6 sz)) < sz"
proof -
  assume sz: "MIN_TABLE_SIZE < sz"
  have "previousPrime (max MIN_TABLE_SIZE (floor_div_1_6 sz)) \<le> max MIN_TABLE_SIZE (floor_div_1_6 sz)"
    by (rule previousPrime_le) simp
  also have "\<dots> < sz" using sz by (simp add: floor_div_1_6_def MIN_TABLE_SIZE_def)
  finally show ?thesis .
qed

lemma remove_loop_found:
  "at \<le> a \<Longrightarrow> a < size_oa st \<Longrightarrow>
   entryAt st (probeInfo st ctx a) = Some (Occupied key) \<Longrightarrow>
   (\<And>a'. at \<le> a' \<Longrightarrow> a' < a \<Longrightarrow>
      entryAt st (probeInfo st ctx a') \<noteq> Some Empty \<and>
      entryAt st (probeInfo st ctx a') \<noteq> Some (Occupied key)) \<Longrightarrow>
   remove_loop st key ctx at =
     (case maintainAfterRemoval_oa
             (st\<lparr>table_oa := (table_oa st)[probeInfo st ctx a := Tombstone],
                 count_oa := count_oa st - 1,
                 tombstones := tombstones st + 1\<rparr>) of
        Inl e \<Rightarrow> Inl e
      | Inr st' \<Rightarrow> Inr (st', Removed))"
proof (induction st key ctx at rule: remove_loop.induct)
  case (1 st key ctx attempt)
  show ?case
  proof (cases "attempt = a")
    case True
    with "1.prems" show ?thesis by (subst remove_loop.simps) simp
  next
    case False
    with "1.prems" have lt: "attempt < a" by simp
    then have ne: "entryAt st (probeInfo st ctx attempt) \<noteq> Some Empty"
      and nk: "entryAt st (probeInfo st ctx attempt) \<noteq> Some (Occupied key)"
      using "1.prems"(4) [of attempt] by simp_all
    have inb: "attempt < size_oa st" using lt "1.prems" by simp
    have "remove_loop st key ctx attempt = remove_loop st key ctx (attempt + 1)"
      using inb ne nk by (subst remove_loop.simps) simp
    also have "\<dots> = (case maintainAfterRemoval_oa
             (st\<lparr>table_oa := (table_oa st)[probeInfo st ctx a := Tombstone],
                 count_oa := count_oa st - 1,
                 tombstones := tombstones st + 1\<rparr>) of
        Inl e \<Rightarrow> Inl e
      | Inr st' \<Rightarrow> Inr (st', Removed))"
      using "1.IH" [OF inb refl refl nk ne] lt "1.prems" by simp
    finally show ?thesis .
  qed
qed

text \<open>
  Claim C6, as the code has it. After every successful open-addressing \<open>remove\<close> (the
  key was found at the first slot of its probe sequence that holds it, that slot became a
  tombstone, \<open>count\<close> went down and \<open>tombstones\<close> up by one), the shrink policy applies
  to the state \<open>st1\<close> so reached: if \<open>size > 3\<close>, \<open>count > 0\<close> and
  \<open>count / size < 0.3\<close>, the table is rehashed to
  \<open>previousPrime(max(3, floor(size / 1.6)))\<close>; else if \<open>size > 3\<close>,
  \<open>tombstones > 0.25 * size\<close> and \<open>tombstones > count\<close>, it is rehashed at the same
  size; otherwise, and so always at size 3, \<open>st1\<close> is the result. The compaction
  branch is under the same \<open>size > 3\<close> guard as the shrink branch.
\<close>

theorem remove_oa_shrink_policy:
  assumes "a < size_oa st"
    and "probeSlot st (normaliseKey rawKey) a = Some (Occupied (normaliseKey rawKey))"
    and "\<forall>a' < a. probeSlot st (normaliseKey rawKey) a' \<noteq> Some Empty \<and>
           probeSlot st (normaliseKey rawKey) a' \<noteq> Some (Occupied (normaliseKey rawKey))"
    and "st1 = st\<lparr>table_oa := (table_oa st)
                      [probeInfo st (createContext st (normaliseKey rawKey)) a := Tombstone],
                   count_oa := count_oa st - 1,
                   tombstones := tombstones st + 1\<rparr>"
  shows "remove_oa st rawKey =
     (case (if 3 < size_oa st \<and> 0 < count_oa st1 \<and> count_oa st1 * 10 < 3 * int (size_oa st)
            then rehash_oa st1 (previousPrime (max 3 (floor_div_1_6 (size_oa st))))
            else if 3 < size_oa st \<and> int (size_oa st) < 4 * tombstones st1 \<and>
                    count_oa st1 < tombstones st1
                 then rehash_oa st1 (size_oa st)
                 else Inr st1) of
        Inl e \<Rightarrow> Inl e
      | Inr st' \<Rightarrow> Inr (st', Removed))"
proof -
  let ?key = "normaliseKey rawKey"
  let ?ctx = "createContext st ?key"
  have loop: "remove_loop st ?key ?ctx 0 =
     (case maintainAfterRemoval_oa st1 of Inl e \<Rightarrow> Inl e | Inr st' \<Rightarrow> Inr (st', Removed))"
    unfolding assms(4)
    using assms(1-3) by (intro remove_loop_found) (simp_all add: probeSlot_def)
  have sz: "size_oa st1 = size_oa st" by (simp add: assms(4))
  have policy: "maintainAfterRemoval_oa st1 =
     (if 3 < size_oa st \<and> 0 < count_oa st1 \<and> count_oa st1 * 10 < 3 * int (size_oa st)
      then rehash_oa st1 (previousPrime (max 3 (floor_div_1_6 (size_oa st))))
      else if 3 < size_oa st \<and> int (size_oa st) < 4 * tombstones st1 \<and>
              count_oa st1 < tombstones st1
           then rehash_oa st1 (size_oa st)
           else Inr st1)"
  proof (cases "3 < size_oa st")
    case False
    then show ?thesis by (simp add: maintainAfterRemoval_oa_def sz MIN_TABLE_SIZE_def)
  next
    case True
    then have "previousPrime (max MIN_TABLE_SIZE (floor_div_1_6 (size_oa st))) < size_oa st"
      by (intro shrink_target_less) (simp add: MIN_TABLE_SIZE_def)
    moreover have "loadBelow st1 30 \<longleftrightarrow> count_oa st1 * 10 < 3 * int (size_oa st)"
      using True by (auto simp: loadBelow_def sz)
    moreover have "tombstonesAbove st1 25 \<longleftrightarrow> int (size_oa st) < 4 * tombstones st1"
      by (auto simp: tombstonesAbove_def sz)
    ultimately show ?thesis
      using True by (simp add: maintainAfterRemoval_oa_def sz Let_def MIN_TABLE_SIZE_def)
  qed
  show ?thesis
    by (simp add: remove_oa_def Let_def loop policy)
qed

theorem remove_oa_shrink_policy_witness:
  "remove_oa \<lparr>variant = LinearProbing, size_oa = 7,
              table_oa = [Empty, Occupied (ascii ''c''), Empty, Empty, Empty,
                          Occupied (ascii ''a''), Occupied (ascii ''b'')],
              count_oa = 3, tombstones = 0\<rparr> (ascii ''c'') =
     Inr (\<lparr>variant = LinearProbing, size_oa = 3,
            table_oa = [Empty, Occupied (ascii ''a''), Occupied (ascii ''b'')],
            count_oa = 2, tombstones = 0\<rparr>, Removed)"
proof -
  let ?S = "\<lparr>variant = LinearProbing, size_oa = 7,
              table_oa = [Empty, Occupied (ascii ''c''), Empty, Empty, Empty,
                          Occupied (ascii ''a''), Occupied (ascii ''b'')],
              count_oa = 3, tombstones = 0\<rparr>"
  let ?S1 = "\<lparr>variant = LinearProbing, size_oa = 7,
              table_oa = [Empty, Tombstone, Empty, Empty, Empty,
                          Occupied (ascii ''a''), Occupied (ascii ''b'')],
              count_oa = 2, tombstones = 1\<rparr>"
  have 1: "0 < size_oa ?S" by simp
  have 2: "probeSlot ?S (normaliseKey (ascii ''c'')) 0 = Some (Occupied (normaliseKey (ascii ''c'')))"
    by (simp add: oa_eval normalise_c hash_c)
  have 3: "\<forall>a' < 0. probeSlot ?S (normaliseKey (ascii ''c'')) a' \<noteq> Some Empty \<and>
           probeSlot ?S (normaliseKey (ascii ''c'')) a' \<noteq> Some (Occupied (normaliseKey (ascii ''c'')))"
    by simp
  have 4: "?S1 = ?S\<lparr>table_oa := (table_oa ?S)
                      [probeInfo ?S (createContext ?S (normaliseKey (ascii ''c''))) 0 := Tombstone],
                   count_oa := count_oa ?S - 1,
                   tombstones := tombstones ?S + 1\<rparr>"
    by (simp add: oa_eval normalise_c hash_c)
  have target: "previousPrime (max 3 (floor_div_1_6 7)) = 3"
    by (simp add: prime_eval)
  have "rehash_oa ?S1 3 = Inr \<lparr>variant = LinearProbing, size_oa = 3,
            table_oa = [Empty, Occupied (ascii ''a''), Occupied (ascii ''b'')],
            count_oa = 2, tombstones = 0\<rparr>"
    by (simp add: oa_eval normalise_a hash_a normalise_b hash_b replicate3)
  with remove_oa_shrink_policy [OF 1 2 3 4] target show ?thesis
    by simp
qed

text \<open>
  The claim as stated lets the compaction apply whenever the two tombstone conditions
  hold, whatever the size. At size 3 it does not: inserting \<open>a\<close> into a fresh
  linear-probing table of size 3 and removing it leaves the tombstone in place, although
  \<open>tombstones > 0.25 * size\<close> and \<open>tombstones > count\<close> hold and a same-size rehash
  would clear it.
\<close>

theorem remove_oa_no_compaction_at_min_size:
  "insert_oa (clear_oa LinearProbing 3) (ascii ''a'') =
     Some (Inr (\<lparr>variant = LinearProbing, size_oa = 3,
                  table_oa = [Empty, Occupied (ascii ''a''), Empty],
                  count_oa = 1, tombstones = 0\<rparr>, Inserted)) \<and>
   remove_oa \<lparr>variant = LinearProbing, size_oa = 3,
              table_oa = [Empty, Occupied (ascii ''a''), Empty],
              count_oa = 1, tombstones = 0\<rparr> (ascii ''a'') =
     Inr (\<lparr>variant = LinearProbing, size_oa = 3, table_oa = [Empty, Tombstone, Empty],
            count_oa = 0, tombstones = 1\<rparr>, Removed) \<and>
   tombstonesAbove \<lparr>variant = LinearProbing, size_oa = 3, table_oa = [Empty, Tombstone, Empty],
                    count_oa = 0, tombstones = 1\<rparr> 25 \<and>
   count_oa \<lparr>variant = LinearProbing, size_oa = 3, table_oa = [Empty, Tombstone, Empty],
             count_oa = 0, tombstones = 1\<rparr>
     < tombstones \<lparr>variant = LinearProbing, size_oa = 3, table_oa = [Empty, Tombstone, Empty],
                   count_oa = 0, tombstones = 1\<rparr> \<and>
   rehash_oa \<lparr>variant = LinearProbing, size_oa = 3, table_oa = [Empty, Tombstone, Empty],
              count_oa = 0, tombstones = 1\<rparr> 3 =
     Inr \<lparr>variant = LinearProbing, size_oa = 3, table_oa = [Empty, Empty, Empty],
          count_oa = 0, tombstones = 0\<rparr>"
  by (simp add: insert_oa.simps oa_eval normalise_a hash_a replicate3 prime_eval)

section \<open>Where open-addressing insert puts the key\<close>

lemma insert_loop_duplicate:
  "at \<le> a \<Longrightarrow> a < size_oa st \<Longrightarrow>
   entryAt st (probeInfo st ctx a) = Some (Occupied key) \<Longrightarrow>
   (\<And>a'. at \<le> a' \<Longrightarrow> a' < a \<Longrightarrow> entryAt st (probeInfo st ctx a') \<noteq> Some Empty) \<Longrightarrow>
   insert_loop st key ctx at ft = Inl (Inr (st, Duplicate))"
proof (induction st key ctx at ft rule: insert_loop.induct)
  case (1 st key ctx attempt firstTombstone)
  show ?case
  proof (cases "entryAt st (probeInfo st ctx attempt) = Some (Occupied key)")
    case True
    with "1.prems" show ?thesis by (subst insert_loop.simps) simp
  next
    case nk: False
    with "1.prems" have lt: "attempt < a" by (cases "attempt = a") auto
    then have ne: "entryAt st (probeInfo st ctx attempt) \<noteq> Some Empty"
      using "1.prems"(4) [of attempt] by simp
    have inb: "attempt < size_oa st" using lt "1.prems" by simp
    have "insert_loop st key ctx attempt firstTombstone =
          insert_loop st key ctx (attempt + 1)
            (if entryAt st (probeInfo st ctx attempt) = Some Tombstone \<and> firstTombstone = None
             then Some (probeInfo st ctx attempt) else firstTombstone)"
      using inb nk ne by (subst insert_loop.simps) (simp add: Let_def)
    also have "\<dots> = Inl (Inr (st, Duplicate))"
      using "1.IH" [OF inb refl refl nk ne] lt "1.prems" by simp
    finally show ?thesis .
  qed
qed

text \<open>Once a tombstone is remembered, the next empty slot sends the key there.\<close>

lemma insert_loop_remembered:
  "at \<le> a \<Longrightarrow> a < size_oa st \<Longrightarrow>
   entryAt st (probeInfo st ctx a) = Some Empty \<Longrightarrow>
   (\<And>a'. at \<le> a' \<Longrightarrow> a' < a \<Longrightarrow>
      entryAt st (probeInfo st ctx a') \<noteq> Some Empty \<and>
      entryAt st (probeInfo st ctx a') \<noteq> Some (Occupied key)) \<Longrightarrow>
   insert_loop st key ctx at (Some t) = Inl (placeAndMaintain st t key)"
proof (induction st key ctx at "Some t :: nat option" rule: insert_loop.induct)
  case (1 st key ctx attempt)
  show ?case
  proof (cases "attempt = a")
    case True
    with "1.prems" show ?thesis by (subst insert_loop.simps) simp
  next
    case False
    with "1.prems" have lt: "attempt < a" by simp
    then have ne: "entryAt st (probeInfo st ctx attempt) \<noteq> Some Empty"
      and nk: "entryAt st (probeInfo st ctx attempt) \<noteq> Some (Occupied key)"
      using "1.prems"(4) [of attempt] by simp_all
    have inb: "attempt < size_oa st" using lt "1.prems" by simp
    have "insert_loop st key ctx attempt (Some t) = insert_loop st key ctx (attempt + 1) (Some t)"
      using inb nk ne by (subst insert_loop.simps) (simp add: Let_def)
    also have "\<dots> = Inl (placeAndMaintain st t key)"
      using "1.hyps" [OF inb refl refl nk ne] lt "1.prems" by simp
    finally show ?thesis .
  qed
qed

text \<open>With no tombstone remembered: the first tombstone of the probe, or the empty slot.\<close>

lemma insert_loop_fresh:
  "at \<le> a \<Longrightarrow> a < size_oa st \<Longrightarrow>
   entryAt st (probeInfo st ctx a) = Some Empty \<Longrightarrow>
   (\<And>a'. at \<le> a' \<Longrightarrow> a' < a \<Longrightarrow>
      entryAt st (probeInfo st ctx a') \<noteq> Some Empty \<and>
      entryAt st (probeInfo st ctx a') \<noteq> Some (Occupied key) \<and>
      entryAt st (probeInfo st ctx a') \<noteq> Some Tombstone) \<Longrightarrow>
   insert_loop st key ctx at None = Inl (placeAndMaintain st (probeInfo st ctx a) key)"
proof (induction st key ctx at "None :: nat option" rule: insert_loop.induct)
  case (1 st key ctx attempt)
  show ?case
  proof (cases "attempt = a")
    case True
    with "1.prems" show ?thesis by (subst insert_loop.simps) simp
  next
    case False
    with "1.prems" have lt: "attempt < a" by simp
    then have ne: "entryAt st (probeInfo st ctx attempt) \<noteq> Some Empty"
      and nk: "entryAt st (probeInfo st ctx attempt) \<noteq> Some (Occupied key)"
      and nt: "entryAt st (probeInfo st ctx attempt) \<noteq> Some Tombstone"
      using "1.prems"(4) [of attempt] by simp_all
    have inb: "attempt < size_oa st" using lt "1.prems" by simp
    have "insert_loop st key ctx attempt None = insert_loop st key ctx (attempt + 1) None"
      using inb nk ne nt by (subst insert_loop.simps) (simp add: Let_def)
    also have "\<dots> = Inl (placeAndMaintain st (probeInfo st ctx a) key)"
      using "1.hyps" [OF inb refl refl nk ne] nt lt "1.prems" by simp
    finally show ?thesis .
  qed
qed

lemma insert_loop_reuse:
  "at \<le> t \<Longrightarrow> t < a \<Longrightarrow> a < size_oa st \<Longrightarrow>
   entryAt st (probeInfo st ctx a) = Some Empty \<Longrightarrow>
   entryAt st (probeInfo st ctx t) = Some Tombstone \<Longrightarrow>
   (\<And>a'. at \<le> a' \<Longrightarrow> a' < a \<Longrightarrow>
      entryAt st (probeInfo st ctx a') \<noteq> Some Empty \<and>
      entryAt st (probeInfo st ctx a') \<noteq> Some (Occupied key)) \<Longrightarrow>
   (\<And>a'. at \<le> a' \<Longrightarrow> a' < t \<Longrightarrow> entryAt st (probeInfo st ctx a') \<noteq> Some Tombstone) \<Longrightarrow>
   insert_loop st key ctx at None = Inl (placeAndMaintain st (probeInfo st ctx t) key)"
proof (induction st key ctx at "None :: nat option" rule: insert_loop.induct)
  case (1 st key ctx attempt)
  have inb: "attempt < size_oa st" using "1.prems" by simp
  have ne: "entryAt st (probeInfo st ctx attempt) \<noteq> Some Empty"
    and nk: "entryAt st (probeInfo st ctx attempt) \<noteq> Some (Occupied key)"
    using "1.prems"(6) [of attempt] "1.prems"(1,2) by simp_all
  show ?case
  proof (cases "attempt = t")
    case True
    have "insert_loop st key ctx attempt None =
          insert_loop st key ctx (attempt + 1) (Some (probeInfo st ctx t))"
      using inb nk ne True "1.prems"(5) by (subst insert_loop.simps) (simp add: Let_def)
    also have "\<dots> = Inl (placeAndMaintain st (probeInfo st ctx t) key)"
      using "1.prems" True by (intro insert_loop_remembered [where a = a]) simp_all
    finally show ?thesis .
  next
    case False
    with "1.prems" have lt: "attempt < t" by simp
    then have nt: "entryAt st (probeInfo st ctx attempt) \<noteq> Some Tombstone"
      using "1.prems"(7) [of attempt] by simp
    have "insert_loop st key ctx attempt None = insert_loop st key ctx (attempt + 1) None"
      using inb nk ne nt by (subst insert_loop.simps) (simp add: Let_def)
    also have "\<dots> = Inl (placeAndMaintain st (probeInfo st ctx t) key)"
      using "1.hyps" [OF inb refl refl nk ne] nt lt "1.prems" by simp
    finally show ?thesis .
  qed
qed

text \<open>
  Claim C4, as the code has it. Open-addressing \<open>insert\<close> first runs the pre-insert
  capacity check, which may rehash the table whatever the key; let \<open>st1\<close> be the state
  it leaves and \<open>key\<close> the normalised key. Then: if the probe meets the key before an
  empty slot, the status is \<open>duplicate\<close> and the state is \<open>st1\<close>, with table, count
  and tombstones as the capacity check left them. Otherwise, when the probe reaches its
  first empty slot, the key is written to the first tombstone slot seen earlier in this
  probe if there is one, else to that empty slot; \<open>count\<close> goes up by one, and
  \<open>tombstones\<close> goes down by one exactly when a tombstone slot was reused; the
  post-insert maintenance runs on the state so reached, and the status is \<open>inserted\<close>.
\<close>

theorem insert_oa_probe_placement:
  assumes "ensureCapacityBeforeInsert st = Inr st1"
    and "key = normaliseKey rawKey"
  shows
    "(\<forall>a < size_oa st1.
        probeSlot st1 key a = Some (Occupied key) \<and>
        (\<forall>a' < a. probeSlot st1 key a' \<noteq> Some Empty)
        \<longrightarrow> insert_oa st rawKey = Some (Inr (st1, Duplicate))) \<and>
     (\<forall>a < size_oa st1.
        probeSlot st1 key a = Some Empty \<and>
        (\<forall>a' < a. probeSlot st1 key a' \<noteq> Some Empty \<and>
                  probeSlot st1 key a' \<noteq> Some (Occupied key) \<and>
                  probeSlot st1 key a' \<noteq> Some Tombstone)
        \<longrightarrow> insert_oa st rawKey =
              Some (case maintainAfterInsert
                           (st1\<lparr>table_oa := (table_oa st1)
                                   [probeInfo st1 (createContext st1 key) a := Occupied key],
                                count_oa := count_oa st1 + 1\<rparr>) of
                      Inl e \<Rightarrow> Inl e
                    | Inr st' \<Rightarrow> Inr (st', Inserted))) \<and>
     (\<forall>a < size_oa st1. \<forall>t < a.
        probeSlot st1 key a = Some Empty \<and>
        probeSlot st1 key t = Some Tombstone \<and>
        (\<forall>a' < a. probeSlot st1 key a' \<noteq> Some Empty \<and>
                  probeSlot st1 key a' \<noteq> Some (Occupied key)) \<and>
        (\<forall>a' < t. probeSlot st1 key a' \<noteq> Some Tombstone)
        \<longrightarrow> insert_oa st rawKey =
              Some (case maintainAfterInsert
                           (st1\<lparr>table_oa := (table_oa st1)
                                   [probeInfo st1 (createContext st1 key) t := Occupied key],
                                count_oa := count_oa st1 + 1,
                                tombstones := tombstones st1 - 1\<rparr>) of
                      Inl e \<Rightarrow> Inl e
                    | Inr st' \<Rightarrow> Inr (st', Inserted)))"
proof (intro conjI allI impI)
  let ?ctx = "createContext st1 key"
  note unfold = insert_oa.simps [of st rawKey] assms(1) assms(2) [symmetric] Let_def
  {
    fix a
    assume "a < size_oa st1"
      and "probeSlot st1 key a = Some (Occupied key) \<and>
           (\<forall>a' < a. probeSlot st1 key a' \<noteq> Some Empty)"
    then have "insert_loop st1 key ?ctx 0 None = Inl (Inr (st1, Duplicate))"
      by (intro insert_loop_duplicate [where a = a]) (simp_all add: probeSlot_def)
    then show "insert_oa st rawKey = Some (Inr (st1, Duplicate))"
      by (simp add: unfold)
  next
    fix a
    assume a: "a < size_oa st1"
      and h: "probeSlot st1 key a = Some Empty \<and>
           (\<forall>a' < a. probeSlot st1 key a' \<noteq> Some Empty \<and>
                  probeSlot st1 key a' \<noteq> Some (Occupied key) \<and>
                  probeSlot st1 key a' \<noteq> Some Tombstone)"
    then have "insert_loop st1 key ?ctx 0 None = Inl (placeAndMaintain st1 (probeInfo st1 ?ctx a) key)"
      by (intro insert_loop_fresh) (simp_all add: probeSlot_def)
    moreover have "placeAt st1 (probeInfo st1 ?ctx a) key =
      st1\<lparr>table_oa := (table_oa st1)[probeInfo st1 ?ctx a := Occupied key],
          count_oa := count_oa st1 + 1\<rparr>"
      using h by (simp add: placeAt_def probeSlot_def)
    ultimately show "insert_oa st rawKey =
              Some (case maintainAfterInsert
                           (st1\<lparr>table_oa := (table_oa st1)
                                   [probeInfo st1 (createContext st1 key) a := Occupied key],
                                count_oa := count_oa st1 + 1\<rparr>) of
                      Inl e \<Rightarrow> Inl e
                    | Inr st' \<Rightarrow> Inr (st', Inserted))"
      by (simp add: unfold placeAndMaintain_def)
  next
    fix a t
    assume a: "a < size_oa st1" and t: "t < a"
      and h: "probeSlot st1 key a = Some Empty \<and>
        probeSlot st1 key t = Some Tombstone \<and>
        (\<forall>a' < a. probeSlot st1 key a' \<noteq> Some Empty \<and>
                  probeSlot st1 key a' \<noteq> Some (Occupied key)) \<and>
        (\<forall>a' < t. probeSlot st1 key a' \<noteq> Some Tombstone)"
    then have "insert_loop st1 key ?ctx 0 None = Inl (placeAndMaintain st1 (probeInfo st1 ?ctx t) key)"
      by (intro insert_loop_reuse [where a = a]) (simp_all add: probeSlot_def)
    moreover have "placeAt st1 (probeInfo st1 ?ctx t) key =
      st1\<lparr>table_oa := (table_oa st1)[probeInfo st1 ?ctx t := Occupied key],
          count_oa := count_oa st1 + 1, tombstones := tombstones st1 - 1\<rparr>"
      using h by (simp add: placeAt_def probeSlot_def)
    ultimately show "insert_oa st rawKey =
              Some (case maintainAfterInsert
                           (st1\<lparr>table_oa := (table_oa st1)
                                   [probeInfo st1 (createContext st1 key) t := Occupied key],
                                count_oa := count_oa st1 + 1,
                                tombstones := tombstones st1 - 1\<rparr>) of
                      Inl e \<Rightarrow> Inl e
                    | Inr st' \<Rightarrow> Inr (st', Inserted))"
      by (simp add: unfold placeAndMaintain_def)
  }
qed

theorem insert_oa_probe_placement_witness:
  "insert_oa \<lparr>variant = LinearProbing, size_oa = 3,
              table_oa = [Empty, Occupied (ascii ''a''), Empty],
              count_oa = 1, tombstones = 0\<rparr> (ascii ''a'') =
     Some (Inr (\<lparr>variant = LinearProbing, size_oa = 3,
                  table_oa = [Empty, Occupied (ascii ''a''), Empty],
                  count_oa = 1, tombstones = 0\<rparr>, Duplicate)) \<and>
   insert_oa \<lparr>variant = LinearProbing, size_oa = 3,
              table_oa = [Empty, Occupied (ascii ''a''), Empty],
              count_oa = 1, tombstones = 0\<rparr> (ascii ''b'') =
     Some (Inr (\<lparr>variant = LinearProbing, size_oa = 3,
                  table_oa = [Empty, Occupied (ascii ''a''), Occupied (ascii ''b'')],
                  count_oa = 2, tombstones = 0\<rparr>, Inserted)) \<and>
   insert_oa \<lparr>variant = LinearProbing, size_oa = 3,
              table_oa = [Empty, Tombstone, Empty],
              count_oa = 0, tombstones = 1\<rparr> (ascii ''b'') =
     Some (Inr (\<lparr>variant = LinearProbing, size_oa = 3,
                  table_oa = [Empty, Occupied (ascii ''b''), Empty],
                  count_oa = 1, tombstones = 0\<rparr>, Inserted))"
proof -
  let ?A = "\<lparr>variant = LinearProbing, size_oa = 3,
             table_oa = [Empty, Occupied (ascii ''a''), Empty],
             count_oa = 1, tombstones = 0\<rparr>"
  let ?B = "\<lparr>variant = LinearProbing, size_oa = 3,
             table_oa = [Empty, Tombstone, Empty],
             count_oa = 0, tombstones = 1\<rparr>"
  note duplicate = insert_oa_probe_placement [THEN conjunct1, rule_format]
  note fresh = insert_oa_probe_placement [THEN conjunct2, THEN conjunct1, rule_format]
  note reuse = insert_oa_probe_placement [THEN conjunct2, THEN conjunct2, rule_format]
  have capA: "ensureCapacityBeforeInsert ?A = Inr ?A"
    and capB: "ensureCapacityBeforeInsert ?B = Inr ?B"
    by (simp_all add: oa_eval)
  have ab: "ascii ''a'' \<noteq> ascii ''b''" by (simp add: ascii_def)
  have a0: "probeSlot ?A (ascii ''a'') 0 = Some (Occupied (ascii ''a''))"
    by (simp add: oa_eval hash_a)
  have b0: "probeSlot ?A (ascii ''b'') 0 = Some (Occupied (ascii ''a''))"
    and b1: "probeSlot ?A (ascii ''b'') 1 = Some Empty"
    by (simp_all add: oa_eval hash_b)
  have c0: "probeSlot ?B (ascii ''b'') 0 = Some Tombstone"
    and c1: "probeSlot ?B (ascii ''b'') 1 = Some Empty"
    by (simp_all add: oa_eval hash_b)
  have "insert_oa ?A (ascii ''a'') = Some (Inr (?A, Duplicate))"
    using duplicate [OF capA normalise_a [symmetric], of 0] a0 by simp
  moreover have "insert_oa ?A (ascii ''b'') =
     Some (Inr (\<lparr>variant = LinearProbing, size_oa = 3,
                  table_oa = [Empty, Occupied (ascii ''a''), Occupied (ascii ''b'')],
                  count_oa = 2, tombstones = 0\<rparr>, Inserted))"
  proof -
    have "\<forall>a' < 1. probeSlot ?A (ascii ''b'') a' \<noteq> Some Empty \<and>
                  probeSlot ?A (ascii ''b'') a' \<noteq> Some (Occupied (ascii ''b'')) \<and>
                  probeSlot ?A (ascii ''b'') a' \<noteq> Some Tombstone"
      using b0 ab by simp
    with fresh [OF capA normalise_b [symmetric], of 1] b1 show ?thesis
      by (simp add: oa_eval hash_b prime_eval)
  qed
  moreover have "insert_oa ?B (ascii ''b'') =
     Some (Inr (\<lparr>variant = LinearProbing, size_oa = 3,
                  table_oa = [Empty, Occupied (ascii ''b''), Empty],
                  count_oa = 1, tombstones = 0\<rparr>, Inserted))"
  proof -
    have "\<forall>a' < 1. probeSlot ?B (ascii ''b'') a' \<noteq> Some Empty \<and>
                  probeSlot ?B (ascii ''b'') a' \<noteq> Some (Occupied (ascii ''b''))"
      using c0 by simp
    with reuse [OF capB normalise_b [symmetric], of 1 0] c0 c1 show ?thesis
      by (simp add: oa_eval hash_b prime_eval)
  qed
  ultimately show ?thesis by simp
qed

text \<open>
  The claim as stated has a duplicate leave table, count and tombstones unchanged. The
  capacity check runs before the probe: five keys in a linear-probing table of size 7
  put the load above 0.68, and inserting one of them again grows the table to 13 slots
  and then reports \<open>duplicate\<close>.
\<close>

theorem insert_oa_duplicate_after_growth:
  "insert_oa (clear_oa LinearProbing 7) (ascii ''a'') =
     Some (Inr (\<lparr>variant = LinearProbing, size_oa = 7,
        table_oa = [Empty, Empty, Empty, Empty, Empty, Occupied (ascii ''a''), Empty],
        count_oa = 1, tombstones = 0\<rparr>, Inserted)) \<and>
   insert_oa
     \<lparr>variant = LinearProbing, size_oa = 7,
      table_oa = [Empty, Empty, Empty, Empty, Empty, Occupied (ascii ''a''), Empty],
      count_oa = 1, tombstones = 0\<rparr> (ascii ''b'') =
     Some (Inr (\<lparr>variant = LinearProbing, size_oa = 7,
        table_oa = [Empty, Empty, Empty, Empty, Empty, Occupied (ascii ''a''),
                    Occupied (ascii ''b'')],
        count_oa = 2, tombstones = 0\<rparr>, Inserted)) \<and>
   insert_oa
     \<lparr>variant = LinearProbing, size_oa = 7,
      table_oa = [Empty, Empty, Empty, Empty, Empty, Occupied (ascii ''a''),
                  Occupied (ascii ''b'')],
      count_oa = 2, tombstones = 0\<rparr> (ascii ''c'') =
     Some (Inr (\<lparr>variant = LinearProbing, size_oa = 7,
        table_oa = [Empty, Occupied (ascii ''c''), Empty, Empty, Empty,
                    Occupied (ascii ''a''), Occupied (ascii ''b'')],
        count_oa = 3, tombstones = 0\<rparr>, Inserted)) \<and>
   insert_oa
     \<lparr>variant = LinearProbing, size_oa = 7,
      table_oa = [Empty, Occupied (ascii ''c''), Empty, Empty, Empty,
                  Occupied (ascii ''a''), Occupied (ascii ''b'')],
      count_oa = 3, tombstones = 0\<rparr> (ascii ''d'') =
     Some (Inr (\<lparr>variant = LinearProbing, size_oa = 7,
        table_oa = [Empty, Occupied (ascii ''c''), Empty, Empty, Occupied (ascii ''d''),
                    Occupied (ascii ''a''), Occupied (ascii ''b'')],
        count_oa = 4, tombstones = 0\<rparr>, Inserted)) \<and>
   insert_oa
     \<lparr>variant = LinearProbing, size_oa = 7,
      table_oa = [Empty, Occupied (ascii ''c''), Empty, Empty, Occupied (ascii ''d''),
                  Occupied (ascii ''a''), Occupied (ascii ''b'')],
      count_oa = 4, tombstones = 0\<rparr> (ascii ''f'') =
     Some (Inr (\<lparr>variant = LinearProbing, size_oa = 7,
        table_oa = [Occupied (ascii ''f''), Occupied (ascii ''c''), Empty, Empty,
                    Occupied (ascii ''d''), Occupied (ascii ''a''), Occupied (ascii ''b'')],
        count_oa = 5, tombstones = 0\<rparr>, Inserted)) \<and>
   probeSlot
     \<lparr>variant = LinearProbing, size_oa = 7,
      table_oa = [Occupied (ascii ''f''), Occupied (ascii ''c''), Empty, Empty,
                  Occupied (ascii ''d''), Occupied (ascii ''a''), Occupied (ascii ''b'')],
      count_oa = 5, tombstones = 0\<rparr> (normaliseKey (ascii ''a'')) 0 =
     Some (Occupied (normaliseKey (ascii ''a''))) \<and>
   insert_oa
     \<lparr>variant = LinearProbing, size_oa = 7,
      table_oa = [Occupied (ascii ''f''), Occupied (ascii ''c''), Empty, Empty,
                  Occupied (ascii ''d''), Occupied (ascii ''a''), Occupied (ascii ''b'')],
      count_oa = 5, tombstones = 0\<rparr> (ascii ''a'') =
     Some (Inr (\<lparr>variant = LinearProbing, size_oa = 13,
        table_oa = [Occupied (ascii ''f''), Occupied (ascii ''a''), Empty,
                    Occupied (ascii ''c''), Occupied (ascii ''b''), Empty, Empty, Empty,
                    Empty, Empty, Empty, Occupied (ascii ''d''), Empty],
        count_oa = 5, tombstones = 0\<rparr>, Duplicate))"
proof (intro conjI)
  note ev = insert_oa.simps oa_eval prime_eval list_eval
    normalise_a hash_a normalise_b hash_b normalise_c hash_c normalise_d hash_d
    normalise_f hash_f
  show "insert_oa (clear_oa LinearProbing 7) (ascii ''a'') =
     Some (Inr (\<lparr>variant = LinearProbing, size_oa = 7,
        table_oa = [Empty, Empty, Empty, Empty, Empty, Occupied (ascii ''a''), Empty],
        count_oa = 1, tombstones = 0\<rparr>, Inserted))"
    by (simp add: ev)
  show "insert_oa
     \<lparr>variant = LinearProbing, size_oa = 7,
      table_oa = [Empty, Empty, Empty, Empty, Empty, Occupied (ascii ''a''), Empty],
      count_oa = 1, tombstones = 0\<rparr> (ascii ''b'') =
     Some (Inr (\<lparr>variant = LinearProbing, size_oa = 7,
        table_oa = [Empty, Empty, Empty, Empty, Empty, Occupied (ascii ''a''),
                    Occupied (ascii ''b'')],
        count_oa = 2, tombstones = 0\<rparr>, Inserted))"
    by (simp add: ev)
  show "insert_oa
     \<lparr>variant = LinearProbing, size_oa = 7,
      table_oa = [Empty, Empty, Empty, Empty, Empty, Occupied (ascii ''a''),
                  Occupied (ascii ''b'')],
      count_oa = 2, tombstones = 0\<rparr> (ascii ''c'') =
     Some (Inr (\<lparr>variant = LinearProbing, size_oa = 7,
        table_oa = [Empty, Occupied (ascii ''c''), Empty, Empty, Empty,
                    Occupied (ascii ''a''), Occupied (ascii ''b'')],
        count_oa = 3, tombstones = 0\<rparr>, Inserted))"
    by (simp add: ev)
  show "insert_oa
     \<lparr>variant = LinearProbing, size_oa = 7,
      table_oa = [Empty, Occupied (ascii ''c''), Empty, Empty, Empty,
                  Occupied (ascii ''a''), Occupied (ascii ''b'')],
      count_oa = 3, tombstones = 0\<rparr> (ascii ''d'') =
     Some (Inr (\<lparr>variant = LinearProbing, size_oa = 7,
        table_oa = [Empty, Occupied (ascii ''c''), Empty, Empty, Occupied (ascii ''d''),
                    Occupied (ascii ''a''), Occupied (ascii ''b'')],
        count_oa = 4, tombstones = 0\<rparr>, Inserted))"
    by (simp add: ev)
  show "insert_oa
     \<lparr>variant = LinearProbing, size_oa = 7,
      table_oa = [Empty, Occupied (ascii ''c''), Empty, Empty, Occupied (ascii ''d''),
                  Occupied (ascii ''a''), Occupied (ascii ''b'')],
      count_oa = 4, tombstones = 0\<rparr> (ascii ''f'') =
     Some (Inr (\<lparr>variant = LinearProbing, size_oa = 7,
        table_oa = [Occupied (ascii ''f''), Occupied (ascii ''c''), Empty, Empty,
                    Occupied (ascii ''d''), Occupied (ascii ''a''), Occupied (ascii ''b'')],
        count_oa = 5, tombstones = 0\<rparr>, Inserted))"
    by (simp add: ev)
  show "probeSlot
     \<lparr>variant = LinearProbing, size_oa = 7,
      table_oa = [Occupied (ascii ''f''), Occupied (ascii ''c''), Empty, Empty,
                  Occupied (ascii ''d''), Occupied (ascii ''a''), Occupied (ascii ''b'')],
      count_oa = 5, tombstones = 0\<rparr> (normaliseKey (ascii ''a'')) 0 =
     Some (Occupied (normaliseKey (ascii ''a'')))"
    by (simp add: ev)
  show "insert_oa
     \<lparr>variant = LinearProbing, size_oa = 7,
      table_oa = [Occupied (ascii ''f''), Occupied (ascii ''c''), Empty, Empty,
                  Occupied (ascii ''d''), Occupied (ascii ''a''), Occupied (ascii ''b'')],
      count_oa = 5, tombstones = 0\<rparr> (ascii ''a'') =
     Some (Inr (\<lparr>variant = LinearProbing, size_oa = 13,
        table_oa = [Occupied (ascii ''f''), Occupied (ascii ''a''), Empty,
                    Occupied (ascii ''c''), Occupied (ascii ''b''), Empty, Empty, Empty,
                    Empty, Empty, Empty, Occupied (ascii ''d''), Empty],
        count_oa = 5, tombstones = 0\<rparr>, Duplicate))"
    by (simp add: ev)
qed

section \<open>Rehashing keeps the keys\<close>

text \<open>What a successful \<open>directInsert\<close> did: it took the first free slot of the probe.\<close>

lemma directInsert_loop_Inr:
  "directInsert_loop st key ctx at = Inr st' \<Longrightarrow>
   \<exists>a. at \<le> a \<and> a < size_oa st \<and>
       (entryAt st (probeInfo st ctx a) = Some Empty \<or>
        entryAt st (probeInfo st ctx a) = Some Tombstone) \<and>
       (\<forall>a'. at \<le> a' \<and> a' < a \<longrightarrow>
          entryAt st (probeInfo st ctx a') \<noteq> Some Empty \<and>
          entryAt st (probeInfo st ctx a') \<noteq> Some Tombstone) \<and>
       st' = st\<lparr>table_oa := (table_oa st)[probeInfo st ctx a := Occupied key],
                 count_oa := count_oa st + 1,
                 tombstones := (if entryAt st (probeInfo st ctx a) = Some Tombstone
                                then tombstones st - 1 else tombstones st)\<rparr>"
proof (induction st key ctx at rule: directInsert_loop.induct)
  case (1 st key ctx attempt)
  note unfold = directInsert_loop.simps [of st key ctx attempt]
  from "1.prems" have inb: "attempt < size_oa st"
    by (simp add: unfold split: if_splits)
  show ?case
  proof (cases "entryAt st (probeInfo st ctx attempt) = Some Empty \<or>
                entryAt st (probeInfo st ctx attempt) = Some Tombstone")
    case True
    with "1.prems" inb have "st' = st\<lparr>table_oa := (table_oa st)[probeInfo st ctx attempt := Occupied key],
                 count_oa := count_oa st + 1,
                 tombstones := (if entryAt st (probeInfo st ctx attempt) = Some Tombstone
                                then tombstones st - 1 else tombstones st)\<rparr>"
      by (auto simp: unfold Let_def)
    with True inb show ?thesis
      by (intro exI [of _ attempt]) auto
  next
    case False
    with "1.prems" inb have "directInsert_loop st key ctx (attempt + 1) = Inr st'"
      by (simp add: unfold Let_def)
    with "1.IH" [OF inb refl refl False] obtain a where a: "attempt + 1 \<le> a" "a < size_oa st"
      "entryAt st (probeInfo st ctx a) = Some Empty \<or>
        entryAt st (probeInfo st ctx a) = Some Tombstone"
      "\<forall>a'. attempt + 1 \<le> a' \<and> a' < a \<longrightarrow>
          entryAt st (probeInfo st ctx a') \<noteq> Some Empty \<and>
          entryAt st (probeInfo st ctx a') \<noteq> Some Tombstone"
      "st' = st\<lparr>table_oa := (table_oa st)[probeInfo st ctx a := Occupied key],
                 count_oa := count_oa st + 1,
                 tombstones := (if entryAt st (probeInfo st ctx a) = Some Tombstone
                                then tombstones st - 1 else tombstones st)\<rparr>"
      by blast
    have "\<forall>a'. attempt \<le> a' \<and> a' < a \<longrightarrow>
          entryAt st (probeInfo st ctx a') \<noteq> Some Empty \<and>
          entryAt st (probeInfo st ctx a') \<noteq> Some Tombstone"
    proof (intro allI impI)
      fix a' assume "attempt \<le> a' \<and> a' < a"
      then consider "a' = attempt" | "attempt + 1 \<le> a' \<and> a' < a" by linarith
      then show "entryAt st (probeInfo st ctx a') \<noteq> Some Empty \<and>
          entryAt st (probeInfo st ctx a') \<noteq> Some Tombstone"
        using False a(4) by cases auto
    qed
    with a show ?thesis
      by (intro exI [of _ a]) auto
  qed
qed

lemma findable_search:
  "findable st (normaliseKey rawKey) \<Longrightarrow> search_oa st rawKey = (st, Found)"
proof -
  assume "findable st (normaliseKey rawKey)"
  then obtain a where "a < size_oa st"
    "probeSlot st (normaliseKey rawKey) a = Some (Occupied (normaliseKey rawKey))"
    "\<forall>a' < a. probeSlot st (normaliseKey rawKey) a' \<noteq> Some Empty"
    by (auto simp: findable_def)
  then have "search_loop st (normaliseKey rawKey) (createContext st (normaliseKey rawKey)) 0 = Found"
    by (intro search_loop_found [where a = a]) (simp_all add: probeSlot_def)
  then show ?thesis by (simp add: search_oa_def Let_def)
qed

lemma directInsert_Inr:
  assumes "directInsert st key = Inr st'"
  obtains a where "a < size_oa st"
    and "probeSlot st key a = Some Empty \<or> probeSlot st key a = Some Tombstone"
    and "\<forall>a' < a. probeSlot st key a' \<noteq> Some Empty \<and> probeSlot st key a' \<noteq> Some Tombstone"
    and "st' = st\<lparr>table_oa := (table_oa st)[probeInfo st (createContext st key) a := Occupied key],
                   count_oa := count_oa st + 1,
                   tombstones := (if probeSlot st key a = Some Tombstone
                                  then tombstones st - 1 else tombstones st)\<rparr>"
  using directInsert_loop_Inr [OF assms [unfolded directInsert_def]]
  unfolding probeSlot_def by auto

lemma probeSlot_update:
  assumes "size_oa st' = size_oa st" "variant st' = variant st"
    and "table_oa st' = (table_oa st)[i := v]"
  shows "probeSlot st' k a =
     (if probeInfo st (createContext st k) a = i \<and> i < length (table_oa st) then Some v
      else probeSlot st k a)"
proof -
  have "createContext st' k = createContext st k"
    by (cases "variant st") (simp_all add: createContext_def assms(1,2))
  then have "probeInfo st' (createContext st' k) a = probeInfo st (createContext st k) a"
    by (cases "variant st") (simp_all add: probeInfo_def assms(1,2))
  then show ?thesis
    by (simp add: probeSlot_def entryAt_def assms(3))
qed

lemma directInsert_findable:
  assumes ins: "directInsert st key = Inr st'"
  shows "findable st' key" and "findable st k \<Longrightarrow> findable st' k"
proof -
  from ins obtain a where a: "a < size_oa st"
    and free: "probeSlot st key a = Some Empty \<or> probeSlot st key a = Some Tombstone"
    and before: "\<forall>a' < a. probeSlot st key a' \<noteq> Some Empty \<and> probeSlot st key a' \<noteq> Some Tombstone"
    and st': "st' = st\<lparr>table_oa := (table_oa st)[probeInfo st (createContext st key) a := Occupied key],
                   count_oa := count_oa st + 1,
                   tombstones := (if probeSlot st key a = Some Tombstone
                                  then tombstones st - 1 else tombstones st)\<rparr>"
    by (rule directInsert_Inr)
  let ?i = "probeInfo st (createContext st key) a"
  have sz: "size_oa st' = size_oa st" and var: "variant st' = variant st"
    and tab: "table_oa st' = (table_oa st)[?i := Occupied key]"
    by (simp_all add: st')
  note upd = probeSlot_update [OF sz var tab]
  have inb: "?i < length (table_oa st)"
    using free by (auto simp: probeSlot_def entryAt_def split: if_splits)
  have at_i: "entryAt st ?i = Some Empty \<or> entryAt st ?i = Some Tombstone"
    using free by (simp add: probeSlot_def)
  show "findable st' key"
    unfolding findable_def
  proof (intro exI [of _ a] conjI allI impI)
    show "a < size_oa st'" using a sz by simp
    show "probeSlot st' key a = Some (Occupied key)" using inb by (simp add: upd)
    fix a' assume "a' < a"
    with before show "probeSlot st' key a' \<noteq> Some Empty"
      by (auto simp: upd)
  qed
  assume "findable st k"
  then obtain b where b: "b < size_oa st" "probeSlot st k b = Some (Occupied k)"
    "\<forall>b' < b. probeSlot st k b' \<noteq> Some Empty"
    by (auto simp: findable_def)
  show "findable st' k"
    unfolding findable_def
  proof (intro exI [of _ b] conjI allI impI)
    show "b < size_oa st'" using b sz by simp
    have "probeInfo st (createContext st k) b \<noteq> ?i"
      using b(2) at_i by (auto simp: probeSlot_def)
    then show "probeSlot st' k b = Some (Occupied k)" using b(2) by (simp add: upd)
    fix b' assume "b' < b"
    with b(3) show "probeSlot st' k b' \<noteq> Some Empty"
      by (auto simp: upd)
  qed
qed

text \<open>Rebuilding never meets a tombstone, so the counter stays 0.\<close>

lemma directInsert_clean:
  assumes "directInsert st key = Inr st'"
    and "Tombstone \<notin> set (table_oa st)" and "tombstones st = 0"
  shows "Tombstone \<notin> set (table_oa st') \<and> tombstones st' = 0"
proof -
  from assms(1) obtain a where
    st': "st' = st\<lparr>table_oa := (table_oa st)[probeInfo st (createContext st key) a := Occupied key],
                   count_oa := count_oa st + 1,
                   tombstones := (if probeSlot st key a = Some Tombstone
                                  then tombstones st - 1 else tombstones st)\<rparr>"
    by (rule directInsert_Inr)
  have "probeSlot st key a \<noteq> Some Tombstone"
  proof
    assume "probeSlot st key a = Some Tombstone"
    then have "probeInfo st (createContext st key) a < length (table_oa st)"
      and "table_oa st ! probeInfo st (createContext st key) a = Tombstone"
      by (simp_all add: probeSlot_def entryAt_def split: if_splits)
    then have "Tombstone \<in> set (table_oa st)" by (metis nth_mem)
    with assms(2) show False by simp
  qed
  moreover have "set ((table_oa st)[probeInfo st (createContext st key) a := Occupied key])
      \<subseteq> insert (Occupied key) (set (table_oa st))"
    by (rule set_update_subset_insert)
  ultimately show ?thesis using assms(2,3) by (auto simp: st')
qed

lemma reinsertAll_findable:
  "reinsertAll st entries = Inr st' \<Longrightarrow>
   Tombstone \<notin> set (table_oa st) \<Longrightarrow> tombstones st = 0 \<Longrightarrow>
   tombstones st' = 0 \<and> size_oa st' = size_oa st \<and>
   (\<forall>k. k \<in> set entries \<or> findable st k \<longrightarrow> findable st' k)"
proof (induction entries arbitrary: st)
  case Nil
  then show ?case by simp
next
  case (Cons entry entries)
  from Cons.prems(1) obtain st1 where 1: "directInsert st entry = Inr st1"
    and 2: "reinsertAll st1 entries = Inr st'"
    by (auto split: sum.splits)
  from directInsert_clean [OF 1 Cons.prems(2,3)]
  have clean: "Tombstone \<notin> set (table_oa st1)" "tombstones st1 = 0" by simp_all
  from Cons.IH [OF 2 clean]
  have ih: "tombstones st' = 0" "size_oa st' = size_oa st1"
    "\<And>k. k \<in> set entries \<or> findable st1 k \<Longrightarrow> findable st' k"
    by blast+
  have sz: "size_oa st1 = size_oa st"
    using 1 by (rule directInsert_Inr) simp
  show ?case
    using ih sz directInsert_findable [OF 1] by auto
qed

lemma liveEntries_iff: "key \<in> set (liveEntries t) \<longleftrightarrow> Occupied key \<in> set t"
  by (induction t rule: liveEntries.induct) auto

lemma rehash_oa_findable:
  assumes "rehash_oa st newSize = Inr st'"
  shows "tombstones st' = 0" and "size_oa st' = newSize"
    and "Occupied key \<in> set (table_oa st) \<Longrightarrow> findable st' key"
  using reinsertAll_findable [OF assms [unfolded rehash_oa_def]]
  by (auto simp: liveEntries_iff)

lemma primaryIndex_less: "sz \<noteq> 0 \<Longrightarrow> primaryIndex sz key < sz"
  by (simp add: primaryIndex_def)

lemma stored_search:
  "stored st (normaliseKey rawKey) \<Longrightarrow> search_ch st rawKey = Inr (st, Found)"
  by (simp add: stored_def search_ch_def bucketAt_def Let_def primaryIndex_less)

lemma insertInternal_stored:
  assumes "size_ch st \<noteq> 0" and "length (table_ch st) = size_ch st"
  shows "\<exists>st'. insertInternal st key = Inr st' \<and> size_ch st' = size_ch st \<and>
           length (table_ch st') = size_ch st \<and> stored st' key \<and>
           (\<forall>k. stored st k \<longrightarrow> stored st' k)"
proof -
  let ?i = "primaryIndex (size_ch st) key"
  let ?st' = "st\<lparr>table_ch := (table_ch st)[?i := table_ch st ! ?i @ [key]],
                 count_ch := count_ch st + 1\<rparr>"
  have i: "?i < length (table_ch st)" using assms by (simp add: primaryIndex_less)
  then have "insertInternal st key = Inr ?st'"
    using assms by (simp add: insertInternal_def bucketAt_def pushKey_def Let_def)
  moreover have "stored ?st' key"
    using assms i by (simp add: stored_def)
  moreover have "stored ?st' k" if "stored st k" for k
  proof (cases "primaryIndex (size_ch st) k = ?i")
    case True
    with that i assms show ?thesis by (simp add: stored_def)
  next
    case False
    with that i assms show ?thesis by (simp add: stored_def)
  qed
  ultimately show ?thesis using assms by auto
qed

lemma insertAll_stored:
  "size_ch st \<noteq> 0 \<Longrightarrow> length (table_ch st) = size_ch st \<Longrightarrow>
   \<exists>st'. insertAll st entries = Inr st' \<and> size_ch st' = size_ch st \<and>
         (\<forall>k. k \<in> set entries \<or> stored st k \<longrightarrow> stored st' k)"
proof (induction entries arbitrary: st)
  case Nil
  then show ?case by simp
next
  case (Cons entry entries)
  from insertInternal_stored [OF Cons.prems, of entry] obtain st1 where
    1: "insertInternal st entry = Inr st1" "size_ch st1 = size_ch st"
      "length (table_ch st1) = size_ch st" "stored st1 entry"
      "\<And>k. stored st k \<Longrightarrow> stored st1 k"
    by blast
  from Cons.IH [of st1] 1(2,3) Cons.prems obtain st' where
    2: "insertAll st1 entries = Inr st'" "size_ch st' = size_ch st1"
      "\<And>k. k \<in> set entries \<or> stored st1 k \<Longrightarrow> stored st' k"
    by auto
  show ?case
    using 1 2 by auto
qed

lemma rehash_ch_stored:
  assumes "newSize \<noteq> 0"
  shows "\<exists>st'. rehash_ch st newSize = Inr st' \<and> size_ch st' = newSize \<and>
           (\<forall>k \<in> set (concat (table_ch st)). stored st' k)"
  using insertAll_stored
    [of "st\<lparr>size_ch := newSize, table_ch := replicate newSize [], count_ch := 0\<rparr>"
        "concat (table_ch st)"] assms
  unfolding rehash_ch_def by auto

text \<open>
  What holds of every rehash. For every open-addressing table (linear, quadratic or
  double hashing) and every rehash that completes, whatever the new size, every key that
  was live before is found by \<open>search\<close> afterwards and the tombstone count is 0; and
  every chaining rehash to a size other than 0 completes and every key stored before is
  found by \<open>search\<close> afterwards. A stored key is a normalised key, so the keys are
  taken as \<open>normaliseKey rawKey\<close> and searched by \<open>rawKey\<close>.
\<close>

lemma rehash_preserves_membership:
  "(rehash_oa st newSize = Inr st' \<longrightarrow>
      tombstones st' = 0 \<and>
      (\<forall>rawKey. Occupied (normaliseKey rawKey) \<in> set (table_oa st)
         \<longrightarrow> search_oa st' rawKey = (st', Found))) \<and>
   (newSize \<noteq> 0 \<longrightarrow>
      (\<exists>cst'. rehash_ch cst newSize = Inr cst' \<and>
         (\<forall>rawKey. normaliseKey rawKey \<in> set (concat (table_ch cst))
            \<longrightarrow> search_ch cst' rawKey = Inr (cst', Found))))"
proof (intro conjI impI)
  assume r: "rehash_oa st newSize = Inr st'"
  show "tombstones st' = 0" using r by (rule rehash_oa_findable)
  show "\<forall>rawKey. Occupied (normaliseKey rawKey) \<in> set (table_oa st)
          \<longrightarrow> search_oa st' rawKey = (st', Found)"
    using rehash_oa_findable(3) [OF r] findable_search by blast
next
  assume "newSize \<noteq> 0"
  from rehash_ch_stored [OF this, of cst] obtain cst' where
    "rehash_ch cst newSize = Inr cst'" "\<forall>k \<in> set (concat (table_ch cst)). stored cst' k"
    by blast
  then show "\<exists>cst'. rehash_ch cst newSize = Inr cst' \<and>
         (\<forall>rawKey. normaliseKey rawKey \<in> set (concat (table_ch cst))
            \<longrightarrow> search_ch cst' rawKey = Inr (cst', Found))"
    using stored_search by blast
qed

lemma rehash_preserves_membership_example:
  "rehash_oa
     \<lparr>variant = LinearProbing, size_oa = 7,
      table_oa = [Occupied (ascii ''f''), Occupied (ascii ''c''), Empty, Empty,
                  Occupied (ascii ''d''), Occupied (ascii ''a''), Occupied (ascii ''b'')],
      count_oa = 5, tombstones = 0\<rparr> 13 =
   Inr \<lparr>variant = LinearProbing, size_oa = 13,
      table_oa = [Occupied (ascii ''f''), Occupied (ascii ''a''), Empty,
                  Occupied (ascii ''c''), Occupied (ascii ''b''), Empty, Empty, Empty,
                  Empty, Empty, Empty, Occupied (ascii ''d''), Empty],
      count_oa = 5, tombstones = 0\<rparr> \<and>
   search_oa
     \<lparr>variant = LinearProbing, size_oa = 13,
      table_oa = [Occupied (ascii ''f''), Occupied (ascii ''a''), Empty,
                  Occupied (ascii ''c''), Occupied (ascii ''b''), Empty, Empty, Empty,
                  Empty, Empty, Empty, Occupied (ascii ''d''), Empty],
      count_oa = 5, tombstones = 0\<rparr> (ascii ''d'') =
   (\<lparr>variant = LinearProbing, size_oa = 13,
      table_oa = [Occupied (ascii ''f''), Occupied (ascii ''a''), Empty,
                  Occupied (ascii ''c''), Occupied (ascii ''b''), Empty, Empty, Empty,
                  Empty, Empty, Empty, Occupied (ascii ''d''), Empty],
      count_oa = 5, tombstones = 0\<rparr>, Found) \<and>
   rehash_ch
     \<lparr>size_ch = 3, table_ch = [[], [ascii ''a'', ascii ''b''], [ascii ''c'']],
      count_ch = 3\<rparr> 5 =
   Inr \<lparr>size_ch = 5, table_ch = [[ascii ''a''], [], [ascii ''b''], [ascii ''c''], []],
      count_ch = 3\<rparr> \<and>
   search_ch
     \<lparr>size_ch = 5, table_ch = [[ascii ''a''], [], [ascii ''b''], [ascii ''c''], []],
      count_ch = 3\<rparr> (ascii ''b'') =
   Inr (\<lparr>size_ch = 5, table_ch = [[ascii ''a''], [], [ascii ''b''], [ascii ''c''], []],
      count_ch = 3\<rparr>, Found)"
proof -
  let ?F = "\<lparr>variant = LinearProbing, size_oa = 7,
      table_oa = [Occupied (ascii ''f''), Occupied (ascii ''c''), Empty, Empty,
                  Occupied (ascii ''d''), Occupied (ascii ''a''), Occupied (ascii ''b'')],
      count_oa = 5, tombstones = 0\<rparr>"
  let ?G = "\<lparr>variant = LinearProbing, size_oa = 13,
      table_oa = [Occupied (ascii ''f''), Occupied (ascii ''a''), Empty,
                  Occupied (ascii ''c''), Occupied (ascii ''b''), Empty, Empty, Empty,
                  Empty, Empty, Empty, Occupied (ascii ''d''), Empty],
      count_oa = 5, tombstones = 0\<rparr>"
  let ?C = "\<lparr>size_ch = 3, table_ch = [[], [ascii ''a'', ascii ''b''], [ascii ''c'']],
      count_ch = 3\<rparr>"
  let ?C' = "\<lparr>size_ch = 5, table_ch = [[ascii ''a''], [], [ascii ''b''], [ascii ''c''], []],
      count_ch = 3\<rparr>"
  note oa = rehash_preserves_membership [THEN conjunct1, rule_format]
  note ch = rehash_preserves_membership [THEN conjunct2, rule_format]
  have r: "rehash_oa ?F 13 = Inr ?G"
    by (simp add: oa_eval list_eval normalise_a hash_a normalise_b hash_b normalise_c hash_c
          normalise_d hash_d normalise_f hash_f)
  have live: "Occupied (normaliseKey (ascii ''d'')) \<in> set (table_oa ?F)"
    by (simp add: normalise_d)
  have s: "search_oa ?G (ascii ''d'') = (?G, Found)"
    using oa [OF r] live by blast
  have rc: "rehash_ch ?C 5 = Inr ?C'"
    by (simp add: ch_eval list_eval normalise_a hash_a normalise_b hash_b normalise_c hash_c)
  have stored: "normaliseKey (ascii ''b'') \<in> set (concat (table_ch ?C))"
    by (simp add: normalise_b)
  have "(5::nat) \<noteq> 0" by simp
  from ch [OF this, of ?C] rc stored
  have sc: "search_ch ?C' (ascii ''b'') = Inr (?C', Found)"
    by auto
  from r s rc sc show ?thesis by simp
qed

text \<open>
  Claim C1 says that after every rehash of an open-addressing table, to any new size,
  every key that was live before is found by \<open>search\<close>. The rehash of a
  quadratic-probing table can end in the throw of \<open>directInsert\<close> instead, with the
  table half rebuilt: the shrink from 17 to 7 slots with the five live keys \<open>b\<close>,
  \<open>e\<close>, \<open>k\<close>, \<open>p\<close>, \<open>y\<close>, which all hash to slot 6 of 7. The state is the one
  that \<open>remove\<close> hands to the shrink policy in the run of the next section. A
  linear probe visits every slot, and a linear-probing rehash to a size of at least the
  number of live keys does complete (\<open>linear_rehash_completes\<close> below).
\<close>

theorem rehash_oa_quadratic_failure:
  "rehash_oa
     \<lparr>variant = QuadraticProbing, size_oa = 17,
      table_oa = [Empty, Occupied (ascii ''e''), Occupied (ascii ''p''), Tombstone, Empty, Empty,
                  Empty, Occupied (ascii ''b''), Occupied (ascii ''y''), Empty,
                  Empty, Empty, Empty, Occupied (ascii ''k''), Empty, Empty,
                  Empty],
      count_oa = 5, tombstones = 1\<rparr> 7 =
   Inl RehashFailed"
  by (simp add: oa_eval list_eval normalise_b hash_b normalise_e hash_e normalise_k hash_k
        normalise_p hash_p normalise_y hash_y)

section \<open>The fatal reinsertion failure\<close>

text \<open>
  Claim C2 says that a rehash to a size of at least the number of live keys never reaches
  the throw in \<open>directInsert\<close>, for quadratic probing too. The code reaches it. A
  quadratic probe of a table of 7 slots visits 4 of them, and \<open>directInsert\<close> gives up
  after its 7 attempts: in a fresh quadratic-probing table of size 17, insert \<open>b\<close>,
  \<open>e\<close>, \<open>k\<close>, \<open>p\<close>, \<open>y\<close> and \<open>a\<close>, then remove \<open>a\<close>. The load 5/17 is
  below 0.3, the shrink policy rehashes to 7 slots, which is more than the 5 live keys,
  and the fifth key finds no slot.
\<close>

theorem remove_oa_shrink_rehash_fails:
  "insert_oa
     (clear_oa QuadraticProbing 17) (ascii ''b'') =
   Some (Inr (\<lparr>variant = QuadraticProbing, size_oa = 17,
      table_oa = [Empty, Empty, Empty, Empty, Empty, Empty, Empty, Occupied (ascii ''b''), Empty,
                  Empty, Empty, Empty, Empty, Empty, Empty, Empty, Empty],
      count_oa = 1, tombstones = 0\<rparr>, Inserted)) \<and>
   insert_oa
     \<lparr>variant = QuadraticProbing, size_oa = 17,
      table_oa = [Empty, Empty, Empty, Empty, Empty, Empty, Empty, Occupied (ascii ''b''), Empty,
                  Empty, Empty, Empty, Empty, Empty, Empty, Empty, Empty],
      count_oa = 1, tombstones = 0\<rparr> (ascii ''e'') =
   Some (Inr (\<lparr>variant = QuadraticProbing, size_oa = 17,
      table_oa = [Empty, Occupied (ascii ''e''), Empty, Empty, Empty, Empty, Empty, Occupied
                  (ascii ''b''), Empty, Empty, Empty, Empty, Empty, Empty,
                  Empty, Empty, Empty],
      count_oa = 2, tombstones = 0\<rparr>, Inserted)) \<and>
   insert_oa
     \<lparr>variant = QuadraticProbing, size_oa = 17,
      table_oa = [Empty, Occupied (ascii ''e''), Empty, Empty, Empty, Empty, Empty, Occupied
                  (ascii ''b''), Empty, Empty, Empty, Empty, Empty, Empty,
                  Empty, Empty, Empty],
      count_oa = 2, tombstones = 0\<rparr> (ascii ''k'') =
   Some (Inr (\<lparr>variant = QuadraticProbing, size_oa = 17,
      table_oa = [Empty, Occupied (ascii ''e''), Empty, Empty, Empty, Empty, Empty, Occupied
                  (ascii ''b''), Empty, Empty, Empty, Empty, Empty, Occupied
                  (ascii ''k''), Empty, Empty, Empty],
      count_oa = 3, tombstones = 0\<rparr>, Inserted)) \<and>
   insert_oa
     \<lparr>variant = QuadraticProbing, size_oa = 17,
      table_oa = [Empty, Occupied (ascii ''e''), Empty, Empty, Empty, Empty, Empty, Occupied
                  (ascii ''b''), Empty, Empty, Empty, Empty, Empty, Occupied
                  (ascii ''k''), Empty, Empty, Empty],
      count_oa = 3, tombstones = 0\<rparr> (ascii ''p'') =
   Some (Inr (\<lparr>variant = QuadraticProbing, size_oa = 17,
      table_oa = [Empty, Occupied (ascii ''e''), Occupied (ascii ''p''), Empty, Empty, Empty,
                  Empty, Occupied (ascii ''b''), Empty, Empty, Empty, Empty,
                  Empty, Occupied (ascii ''k''), Empty, Empty, Empty],
      count_oa = 4, tombstones = 0\<rparr>, Inserted)) \<and>
   insert_oa
     \<lparr>variant = QuadraticProbing, size_oa = 17,
      table_oa = [Empty, Occupied (ascii ''e''), Occupied (ascii ''p''), Empty, Empty, Empty,
                  Empty, Occupied (ascii ''b''), Empty, Empty, Empty, Empty,
                  Empty, Occupied (ascii ''k''), Empty, Empty, Empty],
      count_oa = 4, tombstones = 0\<rparr> (ascii ''y'') =
   Some (Inr (\<lparr>variant = QuadraticProbing, size_oa = 17,
      table_oa = [Empty, Occupied (ascii ''e''), Occupied (ascii ''p''), Empty, Empty, Empty,
                  Empty, Occupied (ascii ''b''), Occupied (ascii ''y''), Empty,
                  Empty, Empty, Empty, Occupied (ascii ''k''), Empty, Empty,
                  Empty],
      count_oa = 5, tombstones = 0\<rparr>, Inserted)) \<and>
   insert_oa
     \<lparr>variant = QuadraticProbing, size_oa = 17,
      table_oa = [Empty, Occupied (ascii ''e''), Occupied (ascii ''p''), Empty, Empty, Empty,
                  Empty, Occupied (ascii ''b''), Occupied (ascii ''y''), Empty,
                  Empty, Empty, Empty, Occupied (ascii ''k''), Empty, Empty,
                  Empty],
      count_oa = 5, tombstones = 0\<rparr> (ascii ''a'') =
   Some (Inr (\<lparr>variant = QuadraticProbing, size_oa = 17,
      table_oa = [Empty, Occupied (ascii ''e''), Occupied (ascii ''p''), Occupied (ascii ''a''),
                  Empty, Empty, Empty, Occupied (ascii ''b''), Occupied (ascii
                  ''y''), Empty, Empty, Empty, Empty, Occupied (ascii ''k''),
                  Empty, Empty, Empty],
      count_oa = 6, tombstones = 0\<rparr>, Inserted)) \<and>
   remove_oa
     \<lparr>variant = QuadraticProbing, size_oa = 17,
      table_oa = [Empty, Occupied (ascii ''e''), Occupied (ascii ''p''), Occupied (ascii ''a''),
                  Empty, Empty, Empty, Occupied (ascii ''b''), Occupied (ascii
                  ''y''), Empty, Empty, Empty, Empty, Occupied (ascii ''k''),
                  Empty, Empty, Empty],
      count_oa = 6, tombstones = 0\<rparr> (ascii ''a'') =
   Inl RehashFailed"
proof (intro conjI)
  note ev = insert_oa.simps oa_eval prime_eval list_eval ascii_eq_iff
    normalise_a hash_a normalise_b hash_b normalise_e hash_e normalise_k hash_k
    normalise_p hash_p normalise_y hash_y
  show "insert_oa
     (clear_oa QuadraticProbing 17) (ascii ''b'') =
   Some (Inr (\<lparr>variant = QuadraticProbing, size_oa = 17,
      table_oa = [Empty, Empty, Empty, Empty, Empty, Empty, Empty, Occupied (ascii ''b''), Empty,
                  Empty, Empty, Empty, Empty, Empty, Empty, Empty, Empty],
      count_oa = 1, tombstones = 0\<rparr>, Inserted))"
    by (simp add: ev)
  show "insert_oa
     \<lparr>variant = QuadraticProbing, size_oa = 17,
      table_oa = [Empty, Empty, Empty, Empty, Empty, Empty, Empty, Occupied (ascii ''b''), Empty,
                  Empty, Empty, Empty, Empty, Empty, Empty, Empty, Empty],
      count_oa = 1, tombstones = 0\<rparr> (ascii ''e'') =
   Some (Inr (\<lparr>variant = QuadraticProbing, size_oa = 17,
      table_oa = [Empty, Occupied (ascii ''e''), Empty, Empty, Empty, Empty, Empty, Occupied
                  (ascii ''b''), Empty, Empty, Empty, Empty, Empty, Empty,
                  Empty, Empty, Empty],
      count_oa = 2, tombstones = 0\<rparr>, Inserted))"
    by (simp add: ev)
  show "insert_oa
     \<lparr>variant = QuadraticProbing, size_oa = 17,
      table_oa = [Empty, Occupied (ascii ''e''), Empty, Empty, Empty, Empty, Empty, Occupied
                  (ascii ''b''), Empty, Empty, Empty, Empty, Empty, Empty,
                  Empty, Empty, Empty],
      count_oa = 2, tombstones = 0\<rparr> (ascii ''k'') =
   Some (Inr (\<lparr>variant = QuadraticProbing, size_oa = 17,
      table_oa = [Empty, Occupied (ascii ''e''), Empty, Empty, Empty, Empty, Empty, Occupied
                  (ascii ''b''), Empty, Empty, Empty, Empty, Empty, Occupied
                  (ascii ''k''), Empty, Empty, Empty],
      count_oa = 3, tombstones = 0\<rparr>, Inserted))"
    by (simp add: ev)
  show "insert_oa
     \<lparr>variant = QuadraticProbing, size_oa = 17,
      table_oa = [Empty, Occupied (ascii ''e''), Empty, Empty, Empty, Empty, Empty, Occupied
                  (ascii ''b''), Empty, Empty, Empty, Empty, Empty, Occupied
                  (ascii ''k''), Empty, Empty, Empty],
      count_oa = 3, tombstones = 0\<rparr> (ascii ''p'') =
   Some (Inr (\<lparr>variant = QuadraticProbing, size_oa = 17,
      table_oa = [Empty, Occupied (ascii ''e''), Occupied (ascii ''p''), Empty, Empty, Empty,
                  Empty, Occupied (ascii ''b''), Empty, Empty, Empty, Empty,
                  Empty, Occupied (ascii ''k''), Empty, Empty, Empty],
      count_oa = 4, tombstones = 0\<rparr>, Inserted))"
    by (simp add: ev)
  show "insert_oa
     \<lparr>variant = QuadraticProbing, size_oa = 17,
      table_oa = [Empty, Occupied (ascii ''e''), Occupied (ascii ''p''), Empty, Empty, Empty,
                  Empty, Occupied (ascii ''b''), Empty, Empty, Empty, Empty,
                  Empty, Occupied (ascii ''k''), Empty, Empty, Empty],
      count_oa = 4, tombstones = 0\<rparr> (ascii ''y'') =
   Some (Inr (\<lparr>variant = QuadraticProbing, size_oa = 17,
      table_oa = [Empty, Occupied (ascii ''e''), Occupied (ascii ''p''), Empty, Empty, Empty,
                  Empty, Occupied (ascii ''b''), Occupied (ascii ''y''), Empty,
                  Empty, Empty, Empty, Occupied (ascii ''k''), Empty, Empty,
                  Empty],
      count_oa = 5, tombstones = 0\<rparr>, Inserted))"
    by (simp add: ev)
  show "insert_oa
     \<lparr>variant = QuadraticProbing, size_oa = 17,
      table_oa = [Empty, Occupied (ascii ''e''), Occupied (ascii ''p''), Empty, Empty, Empty,
                  Empty, Occupied (ascii ''b''), Occupied (ascii ''y''), Empty,
                  Empty, Empty, Empty, Occupied (ascii ''k''), Empty, Empty,
                  Empty],
      count_oa = 5, tombstones = 0\<rparr> (ascii ''a'') =
   Some (Inr (\<lparr>variant = QuadraticProbing, size_oa = 17,
      table_oa = [Empty, Occupied (ascii ''e''), Occupied (ascii ''p''), Occupied (ascii ''a''),
                  Empty, Empty, Empty, Occupied (ascii ''b''), Occupied (ascii
                  ''y''), Empty, Empty, Empty, Empty, Occupied (ascii ''k''),
                  Empty, Empty, Empty],
      count_oa = 6, tombstones = 0\<rparr>, Inserted))"
    by (simp add: ev)
  show "remove_oa
     \<lparr>variant = QuadraticProbing, size_oa = 17,
      table_oa = [Empty, Occupied (ascii ''e''), Occupied (ascii ''p''), Occupied (ascii ''a''),
                  Empty, Empty, Empty, Occupied (ascii ''b''), Occupied (ascii
                  ''y''), Empty, Empty, Empty, Empty, Occupied (ascii ''k''),
                  Empty, Empty, Empty],
      count_oa = 6, tombstones = 0\<rparr> (ascii ''a'') =
   Inl RehashFailed"
    by (simp add: ev)
qed

section \<open>The growth policy of separate chaining\<close>

lemma maxChain_foldl_le:
  "foldl (\<lambda>m bucket. if m < length bucket then length bucket else m) m0 buckets
     \<le> max m0 (length (concat buckets))"
proof (induction buckets arbitrary: m0)
  case Nil
  then show ?case by simp
next
  case (Cons bucket buckets)
  let ?m1 = "if m0 < length bucket then length bucket else m0"
  have "foldl (\<lambda>m bucket. if m < length bucket then length bucket else m) ?m1 buckets
          \<le> max ?m1 (length (concat buckets))"
    by (rule Cons.IH)
  also have "\<dots> \<le> max m0 (length (concat (bucket # buckets)))"
    by auto
  finally show ?case by simp
qed

lemma maxChain_le: "maxChain st \<le> length (concat (table_ch st))"
  using maxChain_foldl_le [of 0 "table_ch st"] by (simp add: maxChain_def)

text \<open>\<open>maxChain\<close> is the length of the longest bucket.\<close>

lemma maxChain_foldl_less:
  "k < foldl (\<lambda>m bucket. if m < length bucket then length bucket else m) m0 buckets
     \<longleftrightarrow> k < m0 \<or> (\<exists>bucket \<in> set buckets. k < length bucket)"
  by (induction buckets arbitrary: m0) auto

lemma maxChain_less: "k < maxChain st \<longleftrightarrow> (\<exists>bucket \<in> set (table_ch st). k < length bucket)"
  by (simp add: maxChain_def maxChain_foldl_less)

lemma length_concat_update:
  "i < length xs \<Longrightarrow> length (concat (xs[i := xs ! i @ [k]])) = Suc (length (concat xs))"
proof (induction xs arbitrary: i)
  case Nil
  then show ?case by simp
next
  case (Cons x xs)
  then show ?case by (cases i) simp_all
qed

lemma set_concat_update:
  "i < length xs \<Longrightarrow> set (concat (xs[i := xs ! i @ [k]])) = insert k (set (concat xs))"
proof (induction xs arbitrary: i)
  case Nil
  then show ?case by simp
next
  case (Cons x xs)
  then show ?case by (cases i) auto
qed

lemma buckets_push:
  assumes "f e < n"
  shows "(map (\<lambda>j. filter (\<lambda>k. f k = j) pre) [0..<n])
           [f e := map (\<lambda>j. filter (\<lambda>k. f k = j) pre) [0..<n] ! f e @ [e]]
         = map (\<lambda>j. filter (\<lambda>k. f k = j) (pre @ [e])) [0..<n]"
proof (rule nth_equalityI)
  show "length ((map (\<lambda>j. filter (\<lambda>k. f k = j) pre) [0..<n])
           [f e := map (\<lambda>j. filter (\<lambda>k. f k = j) pre) [0..<n] ! f e @ [e]])
        = length (map (\<lambda>j. filter (\<lambda>k. f k = j) (pre @ [e])) [0..<n])"
    by simp
next
  fix i
  assume "i < length ((map (\<lambda>j. filter (\<lambda>k. f k = j) pre) [0..<n])
           [f e := map (\<lambda>j. filter (\<lambda>k. f k = j) pre) [0..<n] ! f e @ [e]])"
  then have i: "i < n" by simp
  show "(map (\<lambda>j. filter (\<lambda>k. f k = j) pre) [0..<n])
           [f e := map (\<lambda>j. filter (\<lambda>k. f k = j) pre) [0..<n] ! f e @ [e]] ! i
        = map (\<lambda>j. filter (\<lambda>k. f k = j) (pre @ [e])) [0..<n] ! i"
    using i assms by (cases "i = f e") (auto simp: nth_list_update)
qed

text \<open>The table that \<open>rehash\<close> builds: bucket \<open>i\<close> holds the keys of index \<open>i\<close>, in order.\<close>

lemma insertAll_buckets:
  assumes "n \<noteq> 0"
  shows "insertAll \<lparr>size_ch = n,
                    table_ch = map (\<lambda>i. filter (\<lambda>k. primaryIndex n k = i) pre) [0..<n],
                    count_ch = int (length pre)\<rparr> entries
         = Inr \<lparr>size_ch = n,
                table_ch = map (\<lambda>i. filter (\<lambda>k. primaryIndex n k = i) (pre @ entries)) [0..<n],
                count_ch = int (length (pre @ entries))\<rparr>"
proof (induction entries arbitrary: pre)
  case Nil
  show ?case by simp
next
  case (Cons entry entries)
  let ?st = "\<lparr>size_ch = n,
              table_ch = map (\<lambda>i. filter (\<lambda>k. primaryIndex n k = i) pre) [0..<n],
              count_ch = int (length pre)\<rparr>"
  have i: "primaryIndex n entry < n" using assms by (simp add: primaryIndex_def)
  have "insertInternal ?st entry = Inr (pushKey ?st (primaryIndex n entry) entry)"
    using assms i by (simp add: insertInternal_def bucketAt_def Let_def)
  also have "pushKey ?st (primaryIndex n entry) entry =
     \<lparr>size_ch = n,
      table_ch = map (\<lambda>i. filter (\<lambda>k. primaryIndex n k = i) (pre @ [entry])) [0..<n],
      count_ch = int (length (pre @ [entry]))\<rparr>"
    using buckets_push [where f = "primaryIndex n" and e = entry and n = n and pre = pre, OF i]
    by (simp add: pushKey_def)
  finally have "insertInternal ?st entry = Inr \<lparr>size_ch = n,
      table_ch = map (\<lambda>i. filter (\<lambda>k. primaryIndex n k = i) (pre @ [entry])) [0..<n],
      count_ch = int (length (pre @ [entry]))\<rparr>" .
  then show ?case
    using Cons.IH [of "pre @ [entry]"] by simp
qed

lemma rehash_ch_buckets:
  assumes "newSize \<noteq> 0"
  shows "rehash_ch st newSize =
     Inr \<lparr>size_ch = newSize,
          table_ch = map (\<lambda>i. filter (\<lambda>k. primaryIndex newSize k = i) (concat (table_ch st)))
                       [0..<newSize],
          count_ch = int (length (concat (table_ch st)))\<rparr>"
proof -
  have "st\<lparr>size_ch := newSize, table_ch := replicate newSize [], count_ch := 0\<rparr>
        = \<lparr>size_ch = newSize,
           table_ch = map (\<lambda>i. filter (\<lambda>k. primaryIndex newSize k = i) []) [0..<newSize],
           count_ch = int (length ([] :: jstring list))\<rparr>"
    by (simp add: map_replicate_const)
  then show ?thesis
    using insertAll_buckets [OF assms, of "[]" "concat (table_ch st)"]
    by (simp add: rehash_ch_def)
qed

lemma nextPrime_loop_ge: "MIN_TABLE_SIZE \<le> c \<Longrightarrow> MIN_TABLE_SIZE \<le> nextPrime_loop c"
proof (induction c rule: nextPrime_loop.induct)
  case (1 candidate)
  show ?case
  proof (cases "candidate \<le> MAX_TABLE_SIZE \<and> \<not> isPrime candidate")
    case True
    then have "nextPrime_loop candidate = nextPrime_loop (candidate + 2)"
      by (subst nextPrime_loop.simps) simp
    moreover have "MIN_TABLE_SIZE \<le> nextPrime_loop (candidate + 2)"
      using "1.IH" True "1.prems" by simp
    ultimately show ?thesis by simp
  next
    case False
    then show ?thesis
      using "1.prems"
      by (subst nextPrime_loop.simps) (auto simp: MIN_TABLE_SIZE_def MAX_TABLE_SIZE_def)
  qed
qed

lemma nextPrime_ge: "MIN_TABLE_SIZE \<le> nextPrime v"
proof -
  have "MIN_TABLE_SIZE \<le> clampTableSize v"
    by (simp add: clampTableSize_def MIN_TABLE_SIZE_def MAX_TABLE_SIZE_def)
  then have "MIN_TABLE_SIZE \<le> (if clampTableSize v mod 2 = 0 then clampTableSize v + 1
                                else clampTableSize v)"
    by simp
  then show ?thesis
    unfolding nextPrime_def Let_def by (rule nextPrime_loop_ge)
qed

lemma nextPrime_nonzero: "nextPrime v \<noteq> 0"
  using nextPrime_ge [of v] by (simp add: MIN_TABLE_SIZE_def)

text \<open>An insert of a new key: the push, then the growth policy.\<close>

lemma insert_ch_new:
  assumes "size_ch st \<noteq> 0" and "length (table_ch st) = size_ch st"
    and "normaliseKey rawKey \<notin> set (table_ch st ! primaryIndex (size_ch st) (normaliseKey rawKey))"
  shows "insert_ch st rawKey =
      (let st1 = pushKey st (primaryIndex (size_ch st) (normaliseKey rawKey)) (normaliseKey rawKey);
           target = nextPrime (ceil_times_1_6 (size_ch st))
       in if (115 * int (size_ch st) < count_ch st1 * 100 \<or> 4 < maxChain st1) \<and>
             target \<noteq> size_ch st
          then Inr (\<lparr>size_ch = target,
                      table_ch = map (\<lambda>i. filter (\<lambda>k. primaryIndex target k = i)
                                              (concat (table_ch st1))) [0..<target],
                      count_ch = int (length (concat (table_ch st1)))\<rparr>, Inserted)
          else Inr (st1, Inserted))"
proof -
  let ?key = "normaliseKey rawKey"
  let ?i = "primaryIndex (size_ch st) ?key"
  let ?st1 = "pushKey st ?i ?key"
  let ?target = "nextPrime (ceil_times_1_6 (size_ch st))"
  have i: "?i < length (table_ch st)" using assms by (simp add: primaryIndex_less)
  have bucket: "bucketAt st ?i = Some (table_ch st ! ?i)"
    using assms i by (simp add: bucketAt_def)
  have sz: "size_ch ?st1 = size_ch st" by (simp add: pushKey_def)
  have load: "loadAbove_ch ?st1 115 \<longleftrightarrow> 115 * int (size_ch st) < count_ch ?st1 * 100"
    using assms(1) by (simp add: loadAbove_ch_def sz)
  have "insert_ch st rawKey =
     (case maintainAfterInsert_ch ?st1 of Inl e \<Rightarrow> Inl e | Inr st' \<Rightarrow> Inr (st', Inserted))"
    using assms(3) by (simp add: insert_ch_def Let_def bucket)
  moreover have "maintainAfterInsert_ch ?st1 =
     (if (115 * int (size_ch st) < count_ch ?st1 * 100 \<or> 4 < maxChain ?st1) \<and>
         ?target \<noteq> size_ch st
      then rehash_ch ?st1 ?target else Inr ?st1)"
    by (simp add: maintainAfterInsert_ch_def Let_def load sz)
  moreover have "rehash_ch ?st1 ?target =
     Inr \<lparr>size_ch = ?target,
          table_ch = map (\<lambda>i. filter (\<lambda>k. primaryIndex ?target k = i) (concat (table_ch ?st1)))
                       [0..<?target],
          count_ch = int (length (concat (table_ch ?st1)))\<rparr>"
    by (rule rehash_ch_buckets) (rule nextPrime_nonzero)
  ultimately show ?thesis by (simp add: Let_def)
qed

lemma holds3_clear: "holds3 (clear_ch 3) []"
  by (simp add: holds3_def clear_ch_def)

lemma holds3_push:
  assumes "holds3 st ks"
  shows "holds3 (pushKey st (primaryIndex 3 key) key) (ks @ [key])"
proof -
  have i: "primaryIndex 3 key < length (table_ch st)"
    using assms by (simp add: holds3_def primaryIndex_less)
  show ?thesis
    using assms length_concat_update [OF i, of key] set_concat_update [OF i, of key]
    by (simp add: holds3_def pushKey_def)
qed

lemma not_in_bucket:
  assumes "holds3 st ks" and "key \<notin> set ks"
  shows "key \<notin> set (table_ch st ! primaryIndex (size_ch st) key)"
proof
  assume "key \<in> set (table_ch st ! primaryIndex (size_ch st) key)"
  moreover have "primaryIndex (size_ch st) key < length (table_ch st)"
    using assms(1) by (simp add: holds3_def primaryIndex_less)
  ultimately have "key \<in> set (concat (table_ch st))"
    by (auto intro: nth_mem)
  with assms show False by (simp add: holds3_def)
qed

lemma insert_ch_below_threshold:
  assumes "holds3 st ks" and "length ks < 3" and "normaliseKey rawKey \<notin> set ks"
  shows "insert_ch st rawKey =
     Inr (pushKey st (primaryIndex 3 (normaliseKey rawKey)) (normaliseKey rawKey), Inserted)"
proof -
  let ?key = "normaliseKey rawKey"
  let ?st1 = "pushKey st (primaryIndex 3 ?key) ?key"
  have h1: "holds3 ?st1 (ks @ [?key])" using assms(1) by (rule holds3_push)
  have sz: "size_ch st = 3" "length (table_ch st) = 3" using assms(1) by (simp_all add: holds3_def)
  have "count_ch ?st1 = int (length ks) + 1" using h1 by (simp add: holds3_def)
  then have load: "\<not> 115 * int (size_ch st) < count_ch ?st1 * 100"
    using assms(2) sz by simp
  have "maxChain ?st1 \<le> length (concat (table_ch ?st1))" by (rule maxChain_le)
  also have "\<dots> = length ks + 1" using h1 by (simp add: holds3_def)
  finally have chain: "\<not> 4 < maxChain ?st1" using assms(2) by simp
  have "?key \<notin> set (table_ch st ! primaryIndex (size_ch st) ?key)"
    using assms(1,3) by (rule not_in_bucket)
  from insert_ch_new [OF _ _ this] sz load chain show ?thesis
    by (simp add: Let_def)
qed

lemma insert_ch_at_threshold:
  assumes "holds3 st ks" and "length ks = 3" and "normaliseKey rawKey \<notin> set ks"
  shows "insert_ch st rawKey =
     Inr (\<lparr>size_ch = 5,
            table_ch = map (\<lambda>i. filter (\<lambda>k. primaryIndex 5 k = i)
                         (concat (table_ch (pushKey st (primaryIndex 3 (normaliseKey rawKey))
                                              (normaliseKey rawKey))))) [0..<5],
            count_ch = 4\<rparr>, Inserted)"
proof -
  let ?key = "normaliseKey rawKey"
  let ?st1 = "pushKey st (primaryIndex 3 ?key) ?key"
  have h1: "holds3 ?st1 (ks @ [?key])" using assms(1) by (rule holds3_push)
  have sz: "size_ch st = 3" "length (table_ch st) = 3" using assms(1) by (simp_all add: holds3_def)
  have cnt: "count_ch ?st1 = 4" "length (concat (table_ch ?st1)) = 4"
    using h1 assms(2) by (simp_all add: holds3_def)
  have target: "nextPrime (ceil_times_1_6 3) = 5" by (simp add: prime_eval)
  have "?key \<notin> set (table_ch st ! primaryIndex (size_ch st) ?key)"
    using assms(1,3) by (rule not_in_bucket)
  from insert_ch_new [OF _ _ this] sz cnt target show ?thesis
    by (simp add: Let_def)
qed

text \<open>
  Claim C7. For separate chaining, after every successful insert (the key was not in its
  bucket and has been pushed to it) the growth policy runs: if \<open>count / size > 1.15\<close>
  or the longest chain is longer than 4, that is some bucket holds more than 4 keys, the
  table is rehashed to \<open>nextPrime(ceil(size * 1.6))\<close> whenever that target differs
  from the size, and the rehash puts every key into the bucket that \<open>primaryIndex\<close>
  names at the new size, in the order the keys had. And the scenario: four keys that are distinct after
  normalisation, inserted into a fresh chaining table of size 3. The first three inserts
  only push the key (the size stays 3, the load is not above 1.15); the fourth brings the
  load to 4/3, above 1.15, and is followed by the one rehash, to size 5; all four keys are
  found afterwards.
\<close>

theorem insert_ch_growth:
  "(size_ch st \<noteq> 0 \<and> length (table_ch st) = size_ch st \<and>
    normaliseKey rawKey \<notin> set (table_ch st ! primaryIndex (size_ch st) (normaliseKey rawKey))
    \<longrightarrow>
    insert_ch st rawKey =
      (let st1 = pushKey st (primaryIndex (size_ch st) (normaliseKey rawKey)) (normaliseKey rawKey);
           target = nextPrime (ceil_times_1_6 (size_ch st))
       in if (115 * int (size_ch st) < count_ch st1 * 100 \<or>
              (\<exists>bucket \<in> set (table_ch st1). 4 < length bucket)) \<and>
             target \<noteq> size_ch st
          then Inr (\<lparr>size_ch = target,
                      table_ch = map (\<lambda>i. filter (\<lambda>k. primaryIndex target k = i)
                                              (concat (table_ch st1))) [0..<target],
                      count_ch = int (length (concat (table_ch st1)))\<rparr>, Inserted)
          else Inr (st1, Inserted))) \<and>
   (distinct [normaliseKey k1, normaliseKey k2, normaliseKey k3, normaliseKey k4]
    \<longrightarrow>
    (let s1 = pushKey (clear_ch 3) (primaryIndex 3 (normaliseKey k1)) (normaliseKey k1);
         s2 = pushKey s1 (primaryIndex 3 (normaliseKey k2)) (normaliseKey k2);
         s3 = pushKey s2 (primaryIndex 3 (normaliseKey k3)) (normaliseKey k3);
         pushed = pushKey s3 (primaryIndex 3 (normaliseKey k4)) (normaliseKey k4);
         s4 = \<lparr>size_ch = 5,
               table_ch = map (\<lambda>i. filter (\<lambda>k. primaryIndex 5 k = i) (concat (table_ch pushed)))
                            [0..<5],
               count_ch = 4\<rparr>
     in insert_ch (clear_ch 3) k1 = Inr (s1, Inserted) \<and>
        insert_ch s1 k2 = Inr (s2, Inserted) \<and>
        insert_ch s2 k3 = Inr (s3, Inserted) \<and>
        size_ch s3 = 3 \<and> \<not> loadAbove_ch s3 115 \<and> loadAbove_ch pushed 115 \<and>
        insert_ch s3 k4 = Inr (s4, Inserted) \<and>
        search_ch s4 k1 = Inr (s4, Found) \<and> search_ch s4 k2 = Inr (s4, Found) \<and>
        search_ch s4 k3 = Inr (s4, Found) \<and> search_ch s4 k4 = Inr (s4, Found)))"
proof (intro conjI impI)
  assume "size_ch st \<noteq> 0 \<and> length (table_ch st) = size_ch st \<and>
    normaliseKey rawKey \<notin> set (table_ch st ! primaryIndex (size_ch st) (normaliseKey rawKey))"
  then show "insert_ch st rawKey =
      (let st1 = pushKey st (primaryIndex (size_ch st) (normaliseKey rawKey)) (normaliseKey rawKey);
           target = nextPrime (ceil_times_1_6 (size_ch st))
       in if (115 * int (size_ch st) < count_ch st1 * 100 \<or>
              (\<exists>bucket \<in> set (table_ch st1). 4 < length bucket)) \<and>
             target \<noteq> size_ch st
          then Inr (\<lparr>size_ch = target,
                      table_ch = map (\<lambda>i. filter (\<lambda>k. primaryIndex target k = i)
                                              (concat (table_ch st1))) [0..<target],
                      count_ch = int (length (concat (table_ch st1)))\<rparr>, Inserted)
          else Inr (st1, Inserted))"
    using insert_ch_new [of st rawKey] unfolding maxChain_less by blast
next
  assume d: "distinct [normaliseKey k1, normaliseKey k2, normaliseKey k3, normaliseKey k4]"
  define n1 n2 n3 n4 where "n1 = normaliseKey k1" and "n2 = normaliseKey k2"
    and "n3 = normaliseKey k3" and "n4 = normaliseKey k4"
  define s1 where "s1 = pushKey (clear_ch 3) (primaryIndex 3 n1) n1"
  define s2 where "s2 = pushKey s1 (primaryIndex 3 n2) n2"
  define s3 where "s3 = pushKey s2 (primaryIndex 3 n3) n3"
  define pushed where "pushed = pushKey s3 (primaryIndex 3 n4) n4"
  define s4 where "s4 = \<lparr>size_ch = 5,
               table_ch = map (\<lambda>i. filter (\<lambda>k. primaryIndex 5 k = i) (concat (table_ch pushed)))
                            [0..<5],
               count_ch = 4\<rparr>"
  note defs = n1_def n2_def n3_def n4_def s1_def s2_def s3_def pushed_def s4_def
  from d have dist: "n1 \<noteq> n2" "n1 \<noteq> n3" "n1 \<noteq> n4" "n2 \<noteq> n3" "n2 \<noteq> n4" "n3 \<noteq> n4"
    by (simp_all add: defs)
  have h0: "holds3 (clear_ch 3) []" by (rule holds3_clear)
  have h1: "holds3 s1 [n1]" using holds3_push [OF h0, of n1] by (simp add: s1_def)
  have h2: "holds3 s2 [n1, n2]" using holds3_push [OF h1, of n2] by (simp add: s2_def)
  have h3: "holds3 s3 [n1, n2, n3]" using holds3_push [OF h2, of n3] by (simp add: s3_def)
  have hp: "holds3 pushed [n1, n2, n3, n4]" using holds3_push [OF h3, of n4] by (simp add: pushed_def)
  have i1: "insert_ch (clear_ch 3) k1 = Inr (s1, Inserted)"
    using insert_ch_below_threshold [OF h0, of k1] by (simp add: defs)
  have i2: "insert_ch s1 k2 = Inr (s2, Inserted)"
    using insert_ch_below_threshold [OF h1, of k2] dist by (simp add: s2_def n1_def n2_def)
  have i3: "insert_ch s2 k3 = Inr (s3, Inserted)"
    using insert_ch_below_threshold [OF h2, of k3] dist
    by (simp add: s3_def n1_def n2_def n3_def)
  have i4: "insert_ch s3 k4 = Inr (s4, Inserted)"
    using insert_ch_at_threshold [OF h3, of k4] dist
    by (simp add: s4_def pushed_def n1_def n2_def n3_def n4_def)
  have sz3: "size_ch s3 = 3" and load3: "\<not> loadAbove_ch s3 115"
    using h3 by (simp_all add: holds3_def loadAbove_ch_def)
  have loadp: "loadAbove_ch pushed 115"
    using hp by (simp add: holds3_def loadAbove_ch_def)
  have found: "search_ch s4 k = Inr (s4, Found)" if "normaliseKey k \<in> {n1, n2, n3, n4}" for k
  proof (rule stored_search)
    have "normaliseKey k \<in> set (concat (table_ch pushed))"
      using hp that by (simp add: holds3_def)
    moreover have "primaryIndex 5 (normaliseKey k) < 5" by (simp add: primaryIndex_less)
    ultimately show "stored s4 (normaliseKey k)"
      by (simp add: stored_def s4_def)
  qed
  have "search_ch s4 k1 = Inr (s4, Found)" "search_ch s4 k2 = Inr (s4, Found)"
    "search_ch s4 k3 = Inr (s4, Found)" "search_ch s4 k4 = Inr (s4, Found)"
    by (rule found, simp add: defs)+
  with i1 i2 i3 i4 sz3 load3 loadp
  show "let s1 = pushKey (clear_ch 3) (primaryIndex 3 (normaliseKey k1)) (normaliseKey k1);
         s2 = pushKey s1 (primaryIndex 3 (normaliseKey k2)) (normaliseKey k2);
         s3 = pushKey s2 (primaryIndex 3 (normaliseKey k3)) (normaliseKey k3);
         pushed = pushKey s3 (primaryIndex 3 (normaliseKey k4)) (normaliseKey k4);
         s4 = \<lparr>size_ch = 5,
               table_ch = map (\<lambda>i. filter (\<lambda>k. primaryIndex 5 k = i) (concat (table_ch pushed)))
                            [0..<5],
               count_ch = 4\<rparr>
     in insert_ch (clear_ch 3) k1 = Inr (s1, Inserted) \<and>
        insert_ch s1 k2 = Inr (s2, Inserted) \<and>
        insert_ch s2 k3 = Inr (s3, Inserted) \<and>
        size_ch s3 = 3 \<and> \<not> loadAbove_ch s3 115 \<and> loadAbove_ch pushed 115 \<and>
        insert_ch s3 k4 = Inr (s4, Inserted) \<and>
        search_ch s4 k1 = Inr (s4, Found) \<and> search_ch s4 k2 = Inr (s4, Found) \<and>
        search_ch s4 k3 = Inr (s4, Found) \<and> search_ch s4 k4 = Inr (s4, Found)"
    unfolding Let_def defs by simp
qed

theorem insert_ch_growth_witness:
  "insert_ch \<lparr>size_ch = 3, table_ch = [[], [ascii ''a'', ascii ''b''], [ascii ''c'']],
              count_ch = 3\<rparr> (ascii ''d'') =
     Inr (\<lparr>size_ch = 5,
            table_ch = [[ascii ''a''], [], [ascii ''b''], [ascii ''d'', ascii ''c''], []],
            count_ch = 4\<rparr>, Inserted) \<and>
   insert_ch (clear_ch 3) (ascii ''a'') =
     Inr (\<lparr>size_ch = 3, table_ch = [[], [ascii ''a''], []], count_ch = 1\<rparr>, Inserted) \<and>
   insert_ch \<lparr>size_ch = 3, table_ch = [[], [ascii ''a''], []], count_ch = 1\<rparr> (ascii ''b'') =
     Inr (\<lparr>size_ch = 3, table_ch = [[], [ascii ''a'', ascii ''b''], []], count_ch = 2\<rparr>,
          Inserted) \<and>
   insert_ch \<lparr>size_ch = 3, table_ch = [[], [ascii ''a'', ascii ''b''], []], count_ch = 2\<rparr>
       (ascii ''c'') =
     Inr (\<lparr>size_ch = 3, table_ch = [[], [ascii ''a'', ascii ''b''], [ascii ''c'']],
            count_ch = 3\<rparr>, Inserted) \<and>
   search_ch \<lparr>size_ch = 5,
              table_ch = [[ascii ''a''], [], [ascii ''b''], [ascii ''d'', ascii ''c''], []],
              count_ch = 4\<rparr> (ascii ''c'') =
     Inr (\<lparr>size_ch = 5,
            table_ch = [[ascii ''a''], [], [ascii ''b''], [ascii ''d'', ascii ''c''], []],
            count_ch = 4\<rparr>, Found) \<and>
   insert_ch \<lparr>size_ch = 7,
              table_ch = [[], [], [], [], [], [], [ascii ''b'', ascii ''e'', ascii ''k'']],
              count_ch = 3\<rparr> (ascii ''p'') =
     Inr (\<lparr>size_ch = 7,
            table_ch = [[], [], [], [], [], [],
                        [ascii ''b'', ascii ''e'', ascii ''k'', ascii ''p'']],
            count_ch = 4\<rparr>, Inserted) \<and>
   \<not> loadAbove_ch
       \<lparr>size_ch = 7,
        table_ch = [[], [], [], [], [], [],
                    [ascii ''b'', ascii ''e'', ascii ''k'', ascii ''p'', ascii ''y'']],
        count_ch = 5\<rparr> 115 \<and>
   insert_ch \<lparr>size_ch = 7,
              table_ch = [[], [], [], [], [], [],
                          [ascii ''b'', ascii ''e'', ascii ''k'', ascii ''p'']],
              count_ch = 4\<rparr> (ascii ''y'') =
     Inr (\<lparr>size_ch = 13,
            table_ch = [[], [], [], [], [ascii ''b''], [ascii ''p''], [], [], [], [],
                        [ascii ''e''], [ascii ''k''], [ascii ''y'']],
            count_ch = 5\<rparr>, Inserted)"
proof -
  note general = insert_ch_growth [THEN conjunct1, rule_format]
  note scenario = insert_ch_growth [THEN conjunct2, rule_format]
  let ?S = "\<lparr>size_ch = 3, table_ch = [[], [ascii ''a'', ascii ''b''], [ascii ''c'']],
             count_ch = 3\<rparr>"
  let ?T = "\<lparr>size_ch = 7,
             table_ch = [[], [], [], [], [], [], [ascii ''b'', ascii ''e'', ascii ''k'']],
             count_ch = 3\<rparr>"
  let ?U = "\<lparr>size_ch = 7,
             table_ch = [[], [], [], [], [], [],
                         [ascii ''b'', ascii ''e'', ascii ''k'', ascii ''p'']],
             count_ch = 4\<rparr>"
  note ev = ch_eval prime_eval list_eval ascii_eq_iff
    normalise_a hash_a normalise_b hash_b normalise_c hash_c normalise_d hash_d
  note ev7 = ch_eval prime_eval list_eval ascii_eq_iff
    normalise_b hash_b normalise_e hash_e normalise_k hash_k normalise_p hash_p
    normalise_y hash_y
  have pre: "size_ch ?S \<noteq> 0 \<and> length (table_ch ?S) = size_ch ?S \<and>
    normaliseKey (ascii ''d'') \<notin>
      set (table_ch ?S ! primaryIndex (size_ch ?S) (normaliseKey (ascii ''d'')))"
    by (simp add: ev)
  have 1: "insert_ch ?S (ascii ''d'') =
     Inr (\<lparr>size_ch = 5,
            table_ch = [[ascii ''a''], [], [ascii ''b''], [ascii ''d'', ascii ''c''], []],
            count_ch = 4\<rparr>, Inserted)"
    using general [OF pre] by (simp add: ev)
  have "distinct [normaliseKey (ascii ''a''), normaliseKey (ascii ''b''),
                  normaliseKey (ascii ''c''), normaliseKey (ascii ''d'')]"
    by (simp add: ev)
  from scenario [OF this] have 2:
    "insert_ch (clear_ch 3) (ascii ''a'') =
       Inr (\<lparr>size_ch = 3, table_ch = [[], [ascii ''a''], []], count_ch = 1\<rparr>, Inserted) \<and>
     insert_ch \<lparr>size_ch = 3, table_ch = [[], [ascii ''a''], []], count_ch = 1\<rparr> (ascii ''b'') =
       Inr (\<lparr>size_ch = 3, table_ch = [[], [ascii ''a'', ascii ''b''], []], count_ch = 2\<rparr>,
            Inserted) \<and>
     insert_ch \<lparr>size_ch = 3, table_ch = [[], [ascii ''a'', ascii ''b''], []], count_ch = 2\<rparr>
         (ascii ''c'') =
       Inr (\<lparr>size_ch = 3, table_ch = [[], [ascii ''a'', ascii ''b''], [ascii ''c'']],
              count_ch = 3\<rparr>, Inserted) \<and>
     search_ch \<lparr>size_ch = 5,
                table_ch = [[ascii ''a''], [], [ascii ''b''], [ascii ''d'', ascii ''c''], []],
                count_ch = 4\<rparr> (ascii ''c'') =
       Inr (\<lparr>size_ch = 5,
              table_ch = [[ascii ''a''], [], [ascii ''b''], [ascii ''d'', ascii ''c''], []],
              count_ch = 4\<rparr>, Found)"
    by (simp add: ev)
  have preT: "size_ch ?T \<noteq> 0 \<and> length (table_ch ?T) = size_ch ?T \<and>
    normaliseKey (ascii ''p'') \<notin>
      set (table_ch ?T ! primaryIndex (size_ch ?T) (normaliseKey (ascii ''p'')))"
    by (simp add: ev7)
  have 3: "insert_ch ?T (ascii ''p'') = Inr (?U, Inserted)"
    using general [OF preT] by (simp add: ev7)
  have preU: "size_ch ?U \<noteq> 0 \<and> length (table_ch ?U) = size_ch ?U \<and>
    normaliseKey (ascii ''y'') \<notin>
      set (table_ch ?U ! primaryIndex (size_ch ?U) (normaliseKey (ascii ''y'')))"
    by (simp add: ev7)
  have 4: "insert_ch ?U (ascii ''y'') =
     Inr (\<lparr>size_ch = 13,
            table_ch = [[], [], [], [], [ascii ''b''], [ascii ''p''], [], [], [], [],
                        [ascii ''e''], [ascii ''k''], [ascii ''y'']],
            count_ch = 5\<rparr>, Inserted)"
    using general [OF preU] by (simp add: ev7 upt_rec [of _ "numeral n" for n])
  have 5: "\<not> loadAbove_ch
       \<lparr>size_ch = 7,
        table_ch = [[], [], [], [], [], [],
                    [ascii ''b'', ascii ''e'', ascii ''k'', ascii ''p'', ascii ''y'']],
        count_ch = 5\<rparr> 115"
    by (simp add: loadAbove_ch_def)
  from 1 2 3 4 5 show ?thesis by simp
qed

section \<open>Termination of open-addressing insert\<close>

lemma linear_probe_covers:
  assumes "variant st = LinearProbing" and "i < size_oa st"
  shows "\<exists>a < size_oa st. probeInfo st ctx a = i"
proof -
  let ?n = "size_oa st"
  let ?a = "(i + (?n - base ctx mod ?n)) mod ?n"
  have n: "0 < ?n" using assms(2) by simp
  have "base ctx mod ?n < ?n" using n by simp
  then have "(base ctx mod ?n + (i + (?n - base ctx mod ?n))) = i + ?n" by simp
  then have "(base ctx mod ?n + (i + (?n - base ctx mod ?n))) mod ?n = i"
    using assms(2) by simp
  then have "(base ctx + ?a) mod ?n = i"
    by (simp add: mod_simps)
  moreover have "?a < ?n" using n by simp
  ultimately show ?thesis
    using assms(1) by (auto simp: probeInfo_def)
qed

lemma liveEntries_update:
  "i < length t \<Longrightarrow> t ! i = Empty \<Longrightarrow>
   length (liveEntries (t[i := Occupied k])) = Suc (length (liveEntries t)) \<and>
   set (liveEntries (t[i := Occupied k])) = insert k (set (liveEntries t))"
proof (induction t arbitrary: i)
  case Nil
  then show ?case by simp
next
  case (Cons entry rest)
  show ?case
  proof (cases i)
    case 0
    with Cons.prems show ?thesis by simp
  next
    case (Suc j)
    with Cons.prems have "j < length rest" "rest ! j = Empty" by simp_all
    from Cons.IH [OF this] Suc show ?thesis by (cases entry) auto
  qed
qed

lemma liveEntries_length_le: "length (liveEntries t) \<le> length t"
  by (induction t rule: liveEntries.induct) auto

lemma liveEntries_full:
  "length (liveEntries t) = length t \<Longrightarrow> s \<in> set t \<Longrightarrow> \<exists>k. s = Occupied k"
proof (induction t)
  case Nil
  then show ?case by simp
next
  case (Cons entry rest)
  show ?case
  proof (cases entry)
    case (Occupied key)
    with Cons show ?thesis by auto
  next
    case Empty
    with Cons.prems(1) liveEntries_length_le [of rest] show ?thesis by simp
  next
    case Tombstone
    with Cons.prems(1) liveEntries_length_le [of rest] show ?thesis by simp
  qed
qed

lemma liveEntries_not_full:
  "length (liveEntries t) < length t \<Longrightarrow> Tombstone \<notin> set t \<Longrightarrow> Empty \<in> set t"
proof (induction t)
  case Nil
  then show ?case by simp
next
  case (Cons entry rest)
  then show ?case by (cases entry) auto
qed

lemma liveEntries_all_occupied:
  "(\<forall>s \<in> set t. \<exists>k. s = Occupied k) \<Longrightarrow> length (liveEntries t) = length t"
  by (induction t rule: liveEntries.induct) auto

lemma linearFilled_slot:
  assumes "linearFilled st m S" and "a < 199"
  shows "\<exists>s \<in> set (table_oa st). probeSlot st key a = Some s \<and> s \<noteq> Tombstone"
proof -
  let ?i = "probeInfo st (createContext st key) a"
  have i: "?i < length (table_oa st)"
    using assms by (simp add: linearFilled_def probeInfo_def)
  then have "table_oa st ! ?i \<in> set (table_oa st)" by (rule nth_mem)
  moreover from this have "table_oa st ! ?i \<noteq> Tombstone"
    using assms(1) by (auto simp: linearFilled_def)
  moreover have "probeSlot st key a = Some (table_oa st ! ?i)"
    using i by (simp add: probeSlot_def entryAt_def)
  ultimately show ?thesis by blast
qed

lemma linearFilled_first_empty:
  assumes "linearFilled st m S" and "m < 199"
  shows "\<exists>a < 199. probeSlot st key a = Some Empty \<and>
           (\<forall>a' < a. probeSlot st key a' \<noteq> Some Empty)"
proof -
  have "Empty \<in> set (table_oa st)"
    using assms by (intro liveEntries_not_full) (simp_all add: linearFilled_def)
  then obtain i where i: "i < 199" "table_oa st ! i = Empty"
    using assms(1) by (auto simp: in_set_conv_nth linearFilled_def)
  obtain a0 where a0: "a0 < 199" "probeInfo st (createContext st key) a0 = i"
    using linear_probe_covers [of st i "createContext st key"] assms(1) i(1)
    by (auto simp: linearFilled_def)
  have e0: "probeSlot st key a0 = Some Empty"
    using a0 i assms(1) by (simp add: probeSlot_def entryAt_def linearFilled_def)
  define a where "a = (LEAST a. probeSlot st key a = Some Empty)"
  have 1: "probeSlot st key a = Some Empty"
    unfolding a_def using e0 by (rule LeastI)
  have "a \<le> a0"
    unfolding a_def using e0 by (rule Least_le)
  then have 2: "a < 199" using a0(1) by (rule le_less_trans)
  have 3: "\<forall>a' < a. probeSlot st key a' \<noteq> Some Empty"
    unfolding a_def using not_less_Least by blast
  from 1 2 3 show ?thesis by blast
qed

lemma directInsert_loop_first_free:
  "at \<le> a \<Longrightarrow> a < size_oa st \<Longrightarrow>
   entryAt st (probeInfo st ctx a) = Some Empty \<Longrightarrow>
   (\<And>a'. at \<le> a' \<Longrightarrow> a' < a \<Longrightarrow>
      entryAt st (probeInfo st ctx a') \<noteq> Some Empty \<and>
      entryAt st (probeInfo st ctx a') \<noteq> Some Tombstone) \<Longrightarrow>
   directInsert_loop st key ctx at =
     Inr (st\<lparr>table_oa := (table_oa st)[probeInfo st ctx a := Occupied key],
             count_oa := count_oa st + 1\<rparr>)"
proof (induction st key ctx at rule: directInsert_loop.induct)
  case (1 st key ctx attempt)
  show ?case
  proof (cases "attempt = a")
    case True
    with "1.prems" show ?thesis by (subst directInsert_loop.simps) simp
  next
    case False
    with "1.prems" have lt: "attempt < a" by simp
    then have free: "\<not> (entryAt st (probeInfo st ctx attempt) = Some Empty \<or>
                         entryAt st (probeInfo st ctx attempt) = Some Tombstone)"
      using "1.prems"(4) [of attempt] by simp
    have inb: "attempt < size_oa st" using lt "1.prems" by simp
    have "directInsert_loop st key ctx attempt = directInsert_loop st key ctx (attempt + 1)"
      using inb free by (subst directInsert_loop.simps) (simp add: Let_def)
    also have "\<dots> = Inr (st\<lparr>table_oa := (table_oa st)[probeInfo st ctx a := Occupied key],
             count_oa := count_oa st + 1\<rparr>)"
      using "1.IH" [OF inb refl refl free] lt "1.prems" by simp
    finally show ?thesis .
  qed
qed

text \<open>Writing a key into an empty slot of such a table.\<close>

lemma linearFilled_fill:
  assumes "linearFilled st m S" and "i < 199" and "table_oa st ! i = Empty"
  shows "linearFilled (st\<lparr>table_oa := (table_oa st)[i := Occupied key],
                          count_oa := count_oa st + 1\<rparr>) (Suc m) (insert key S)"
proof -
  have len: "i < length (table_oa st)" using assms by (simp add: linearFilled_def)
  have "set ((table_oa st)[i := Occupied key]) \<subseteq> insert (Occupied key) (set (table_oa st))"
    by (rule set_update_subset_insert)
  then have "Tombstone \<notin> set ((table_oa st)[i := Occupied key])"
    using assms(1) by (auto simp: linearFilled_def)
  then show ?thesis
    using assms(1) liveEntries_update [OF len assms(3), of key]
    by (simp add: linearFilled_def)
qed

lemma linearFilled_directInsert:
  assumes "linearFilled st m S" and "m < 199"
  shows "\<exists>st'. directInsert st key = Inr st' \<and> linearFilled st' (Suc m) (insert key S)"
proof -
  from linearFilled_first_empty [OF assms, of key] obtain a where a: "a < 199"
    "probeSlot st key a = Some Empty" "\<forall>a' < a. probeSlot st key a' \<noteq> Some Empty"
    by blast
  let ?ctx = "createContext st key"
  let ?i = "probeInfo st ?ctx a"
  have noT: "probeSlot st key a' \<noteq> Some Tombstone" if "a' < 199" for a'
    using linearFilled_slot [OF assms(1) that, of key] by auto
  have "directInsert_loop st key ?ctx 0 =
     Inr (st\<lparr>table_oa := (table_oa st)[?i := Occupied key], count_oa := count_oa st + 1\<rparr>)"
  proof (rule directInsert_loop_first_free [where a = a])
    show "a < size_oa st" using a(1) assms(1) by (simp add: linearFilled_def)
    show "entryAt st ?i = Some Empty" using a(2) by (simp add: probeSlot_def)
    fix a' assume "a' < a"
    then show "entryAt st (probeInfo st ?ctx a') \<noteq> Some Empty \<and>
               entryAt st (probeInfo st ?ctx a') \<noteq> Some Tombstone"
      using a(1,3) noT [of a'] by (simp add: probeSlot_def)
  qed simp
  moreover have "?i < 199" "table_oa st ! ?i = Empty"
    using a(2) assms(1)
    by (auto simp: probeSlot_def entryAt_def linearFilled_def split: if_splits)
  ultimately show ?thesis
    using linearFilled_fill [OF assms(1), of ?i key] by (simp add: directInsert_def)
qed

lemma linearFilled_reinsertAll:
  "linearFilled st m S \<Longrightarrow> m + length entries \<le> 199 \<Longrightarrow>
   \<exists>st'. reinsertAll st entries = Inr st' \<and>
         linearFilled st' (m + length entries) (S \<union> set entries)"
proof (induction entries arbitrary: st m S)
  case Nil
  then show ?case by simp
next
  case (Cons entry entries)
  from Cons.prems have "m < 199" by simp
  from linearFilled_directInsert [OF Cons.prems(1) this, of entry] obtain st1 where
    1: "directInsert st entry = Inr st1" "linearFilled st1 (Suc m) (insert entry S)"
    by blast
  from Cons.IH [OF 1(2)] Cons.prems(2) obtain st' where
    "reinsertAll st1 entries = Inr st'"
    "linearFilled st' (Suc m + length entries) (insert entry S \<union> set entries)"
    by auto
  with 1(1) show ?case by auto
qed

lemma liveEntries_replicate: "liveEntries (replicate n Empty) = []"
  by (induction n) simp_all

lemma linearFilled_rehash:
  assumes "linearFilled st 199 S"
  shows "\<exists>st'. rehash_oa st 199 = Inr st' \<and> linearFilled st' 199 S"
proof -
  let ?st0 = "st\<lparr>size_oa := 199, table_oa := replicate 199 Empty,
                  count_oa := 0, tombstones := 0\<rparr>"
  have "linearFilled ?st0 0 {}"
    using assms by (simp add: linearFilled_def liveEntries_replicate)
  from linearFilled_reinsertAll [OF this, of "liveEntries (table_oa st)"] assms
  show ?thesis
    by (simp add: rehash_oa_def linearFilled_def)
qed

lemma growth_target_at_max: "nextPrime (ceil_times_1_6 199) = 199"
  by (simp add: prime_eval)

lemma post_growth_target_at_max: "nextPrime (ceil_times_1_35 199) = 199"
  by (simp add: prime_eval)

lemma linearFilled_ensureCapacity:
  "linearFilled st m S \<Longrightarrow> ensureCapacityBeforeInsert st = Inr st"
  by (simp add: ensureCapacityBeforeInsert_def linearFilled_def growth_target_at_max
        tombstonesAbove_def)

lemma linearFilled_maintainAfterInsert:
  "linearFilled st m S \<Longrightarrow> maintainAfterInsert st = Inr st"
  by (simp add: maintainAfterInsert_def linearFilled_def post_growth_target_at_max
        tombstonesAbove_def)

lemma linearFilled_slot_key:
  assumes "linearFilled st m S" and "a < 199" and "key \<notin> S"
  shows "probeSlot st key a \<noteq> Some (Occupied key)"
proof
  assume "probeSlot st key a = Some (Occupied key)"
  with linearFilled_slot [OF assms(1,2), of key] have "Occupied key \<in> set (table_oa st)"
    by auto
  then have "key \<in> set (liveEntries (table_oa st))" by (simp add: liveEntries_iff)
  with assms(1,3) show False by (simp add: linearFilled_def)
qed

lemma linearFilled_insert:
  assumes "linearFilled st m S" and "m < 199" and "normaliseKey rawKey \<notin> S"
  shows "\<exists>st'. insert_oa st rawKey = Some (Inr (st', Inserted)) \<and>
           linearFilled st' (Suc m) (insert (normaliseKey rawKey) S)"
proof -
  let ?key = "normaliseKey rawKey"
  let ?ctx = "createContext st ?key"
  from linearFilled_first_empty [OF assms(1,2), of ?key] obtain a where a: "a < 199"
    "probeSlot st ?key a = Some Empty" "\<forall>a' < a. probeSlot st ?key a' \<noteq> Some Empty"
    by blast
  let ?i = "probeInfo st ?ctx a"
  let ?st' = "st\<lparr>table_oa := (table_oa st)[?i := Occupied ?key], count_oa := count_oa st + 1\<rparr>"
  have i: "?i < 199" "table_oa st ! ?i = Empty"
    using a(2) assms(1)
    by (auto simp: probeSlot_def entryAt_def linearFilled_def split: if_splits)
  have filled: "linearFilled ?st' (Suc m) (insert ?key S)"
    using assms(1) i by (rule linearFilled_fill)
  have "insert_loop st ?key ?ctx 0 None = Inl (placeAndMaintain st ?i ?key)"
  proof (rule insert_loop_fresh)
    show "a < size_oa st" using a(1) assms(1) by (simp add: linearFilled_def)
    show "entryAt st ?i = Some Empty" using a(2) by (simp add: probeSlot_def)
    fix a' assume a': "a' < a"
    then have "a' < 199" using a(1) by simp
    then have "probeSlot st ?key a' \<noteq> Some Tombstone"
      and "probeSlot st ?key a' \<noteq> Some (Occupied ?key)"
      using linearFilled_slot [OF assms(1), of a' ?key]
        linearFilled_slot_key [OF assms(1) _ assms(3), of a'] by auto
    with a(3) a' show "entryAt st (probeInfo st ?ctx a') \<noteq> Some Empty \<and>
               entryAt st (probeInfo st ?ctx a') \<noteq> Some (Occupied ?key) \<and>
               entryAt st (probeInfo st ?ctx a') \<noteq> Some Tombstone"
      by (simp add: probeSlot_def)
  qed simp
  moreover have "placeAt st ?i ?key = ?st'"
    using a(2) by (simp add: placeAt_def probeSlot_def)
  ultimately have "insert_oa st rawKey = Some (Inr (?st', Inserted))"
    using linearFilled_ensureCapacity [OF assms(1)] linearFilled_maintainAfterInsert [OF filled]
    by (simp add: insert_oa.simps [of st rawKey] Let_def placeAndMaintain_def)
  with filled show ?thesis by blast
qed

lemma linearFilled_insertKeys:
  "linearFilled st m S \<Longrightarrow> m + length rawKeys \<le> 199 \<Longrightarrow>
   distinct (map normaliseKey rawKeys) \<Longrightarrow> normaliseKey ` set rawKeys \<inter> S = {} \<Longrightarrow>
   \<exists>st'. insertKeys st rawKeys = Some (Inr st') \<and>
         linearFilled st' (m + length rawKeys) (S \<union> normaliseKey ` set rawKeys)"
proof (induction rawKeys arbitrary: st m S)
  case Nil
  then show ?case by simp
next
  case (Cons rawKey rest)
  from Cons.prems have m: "m < 199" and new: "normaliseKey rawKey \<notin> S" by auto
  from linearFilled_insert [OF Cons.prems(1) m new] obtain st1 where
    1: "insert_oa st rawKey = Some (Inr (st1, Inserted))"
      "linearFilled st1 (Suc m) (insert (normaliseKey rawKey) S)"
    by blast
  have "normaliseKey ` set rest \<inter> insert (normaliseKey rawKey) S = {}"
    using Cons.prems(3,4) by auto
  from Cons.IH [OF 1(2) _ _ this] Cons.prems(2,3) obtain st' where
    "insertKeys st1 rest = Some (Inr st')"
    "linearFilled st' (Suc m + length rest)
       (insert (normaliseKey rawKey) S \<union> normaliseKey ` set rest)"
    by auto
  with 1(1) show ?case by auto
qed

text \<open>The probe loop of \<open>insert\<close> falls through when it meets neither the key nor a free slot.\<close>

lemma insert_loop_exhausted:
  "(\<And>a. at \<le> a \<Longrightarrow> a < size_oa st \<Longrightarrow>
      entryAt st (probeInfo st ctx a) \<noteq> Some (Occupied key) \<and>
      entryAt st (probeInfo st ctx a) \<noteq> Some Empty \<and>
      entryAt st (probeInfo st ctx a) \<noteq> Some Tombstone) \<Longrightarrow>
   insert_loop st key ctx at ft = Inr ft"
proof (induction st key ctx at ft rule: insert_loop.induct)
  case (1 st key ctx attempt firstTombstone)
  show ?case
  proof (cases "attempt < size_oa st")
    case False
    then show ?thesis by (subst insert_loop.simps) simp
  next
    case True
    from "1.prems" [of attempt] True
    have nk: "entryAt st (probeInfo st ctx attempt) \<noteq> Some (Occupied key)"
      and ne: "entryAt st (probeInfo st ctx attempt) \<noteq> Some Empty"
      and nt: "entryAt st (probeInfo st ctx attempt) \<noteq> Some Tombstone"
      by simp_all
    have "insert_loop st key ctx attempt firstTombstone =
          insert_loop st key ctx (attempt + 1) firstTombstone"
      using True nk ne nt by (subst insert_loop.simps) (simp add: Let_def)
    also have "\<dots> = Inr firstTombstone"
      using "1.IH" [OF True refl refl nk ne] nt "1.prems" by simp
    finally show ?thesis .
  qed
qed

text \<open>
  On a full table of the maximum size the saturated branch rehashes to the same size and
  calls \<open>insert\<close> on a table that is full again.
\<close>

lemma insert_oa_saturated:
  assumes "linearFilled st 199 S" and "normaliseKey key = key" and "key \<notin> S"
  shows "insert_oa st key = None"
proof (rule ccontr)
  assume "insert_oa st key \<noteq> None"
  then obtain r where ret: "insert_oa st key = Some r" by auto
  define P :: "oa_state \<Rightarrow> jstring \<Rightarrow> error + oa_state \<times> status \<Rightarrow> bool"
    where "P = (\<lambda>st0 raw0 r. \<not> (linearFilled st0 199 S \<and> raw0 = key))"
  have "P st key r"
  proof (rule insert_oa.raw_induct [where P = P, OF _ ret])
    fix insert_rec st0 raw0 r0
    assume ih: "\<And>st1 raw1 y. insert_rec st1 raw1 = Some y \<Longrightarrow> P st1 raw1 y"
      and body: "(let key = normaliseKey raw0
         in case ensureCapacityBeforeInsert st0 of
              Inl e \<Rightarrow> Some (Inl e)
            | Inr st1 \<Rightarrow>
                (case insert_loop st1 key (createContext st1 key) 0 None of
                   Inl result \<Rightarrow> Some result
                 | Inr None \<Rightarrow>
                     (case rehash_oa st1 (nextPrime (ceil_times_1_6 (size_oa st1))) of
                        Inl e \<Rightarrow> Some (Inl e)
                      | Inr st2 \<Rightarrow> insert_rec st2 key)
                 | Inr (Some firstTombstone) \<Rightarrow> Some (placeAndMaintain st1 firstTombstone key))) = Some r0"
    show "P st0 raw0 r0"
      unfolding P_def
    proof
      assume "linearFilled st0 199 S \<and> raw0 = key"
      then have full: "linearFilled st0 199 S" and raw0: "raw0 = key" by simp_all
      have sz: "size_oa st0 = 199" using full by (simp add: linearFilled_def)
      have "insert_loop st0 key (createContext st0 key) 0 None = Inr None"
      proof (rule insert_loop_exhausted)
        fix a assume "a < size_oa st0"
        then have a: "a < 199" using sz by simp
        from linearFilled_slot [OF full a, of key] obtain s where
          s: "s \<in> set (table_oa st0)" "probeSlot st0 key a = Some s" "s \<noteq> Tombstone"
          by blast
        have "\<exists>k. s = Occupied k"
          using full s(1) by (intro liveEntries_full) (simp_all add: linearFilled_def)
        with s linearFilled_slot_key [OF full a assms(3)]
        show "entryAt st0 (probeInfo st0 (createContext st0 key) a) \<noteq> Some (Occupied key) \<and>
              entryAt st0 (probeInfo st0 (createContext st0 key) a) \<noteq> Some Empty \<and>
              entryAt st0 (probeInfo st0 (createContext st0 key) a) \<noteq> Some Tombstone"
          by (auto simp: probeSlot_def)
      qed
      moreover obtain st2 where "rehash_oa st0 199 = Inr st2" "linearFilled st2 199 S"
        using linearFilled_rehash [OF full] by blast
      ultimately have "insert_rec st2 key = Some r0" "linearFilled st2 199 S"
        using body linearFilled_ensureCapacity [OF full]
        by (simp_all add: raw0 assms(2) Let_def sz growth_target_at_max)
      with ih [of st2 key r0] show False by (simp add: P_def)
    qed
  qed
  with assms(1) show False by (simp add: P_def)
qed

lemma normaliseKey_repeated_a: "normaliseKey (repeated_a n) = repeated_a n"
proof (cases n)
  case 0
  then show ?thesis
    by (simp add: repeated_a_def normaliseKey_def trim_def matchesInteger_def digitsOf_def
          isNegative_def)
next
  case (Suc m)
  have ws: "\<not> isWhiteSpace 0x61" by (simp add: isWhiteSpace_def)
  have "dropWhile isWhiteSpace (replicate (Suc k) 0x61) = replicate (Suc k) 0x61" for k
    using ws by simp
  then have "trim (replicate (Suc m) 0x61) = replicate (Suc m) 0x61"
    by (simp only: trim_def rev_replicate)
  moreover have "\<not> matchesInteger (replicate (Suc m) 0x61)"
    by (simp add: matchesInteger_def digitsOf_def isNegative_def isDigit_def)
  ultimately show ?thesis
    using Suc by (simp add: repeated_a_def normaliseKey_def)
qed

lemma repeated_a_eq_iff: "repeated_a m = repeated_a n \<longleftrightarrow> m = n"
  by (auto simp: repeated_a_def dest: arg_cong [where f = length])

lemma insertKeys_append:
  "insertKeys st (rawKeys @ [rawKey]) =
     (case insertKeys st rawKeys of
        Some (Inr st') \<Rightarrow> insertKeys st' [rawKey]
      | r \<Rightarrow> r)"
  by (induction rawKeys arbitrary: st) (auto split: option.splits sum.splits)

text \<open>
  Claim C3 says that every operation returns, and that the retry of \<open>insert\<close> cannot
  go on forever even at the maximum size 199. It can. In a fresh linear-probing table of
  size 199, the 199 keys \<open>a\<close>, \<open>aa\<close>, \<open>aaa\<close>, and so on are inserted one after the
  other and each insert returns; no resize happens, since \<open>nextPrime\<close> answers 199
  for every growth target. The table is then full, and the insert of the key of 200
  letters \<open>a\<close> does not return: the saturated branch rehashes to
  \<open>nextPrime(ceil(199 * 1.6)) = 199\<close>, the table is full again, and \<open>insert\<close> calls
  itself on it without end.
\<close>

theorem insert_oa_diverges_at_max_size:
  "returned (insertKeys (clear_oa LinearProbing 199) (map repeated_a [1..<200])) \<and>
   insertKeys (clear_oa LinearProbing 199) (map repeated_a [1..<200] @ [repeated_a 200]) = None"
proof -
  let ?keys = "map repeated_a [1..<200]"
  have start: "linearFilled (clear_oa LinearProbing 199) 0 {}"
    by (simp add: linearFilled_def clear_oa_def liveEntries_replicate)
  have norm: "map normaliseKey ?keys = ?keys"
    by (simp add: normaliseKey_repeated_a)
  have "inj_on repeated_a (set [1..<200])"
    by (rule inj_onI) (simp add: repeated_a_eq_iff)
  then have dist: "distinct (map normaliseKey ?keys)"
    unfolding norm by (simp add: distinct_map)
  have len: "0 + length ?keys \<le> 199" by simp
  from linearFilled_insertKeys [OF start len dist] obtain st where
    st: "insertKeys (clear_oa LinearProbing 199) ?keys = Some (Inr st)"
      "linearFilled st (0 + length ?keys) ({} \<union> normaliseKey ` set ?keys)"
    by auto
  have full: "linearFilled st 199 (repeated_a ` {1..<200})"
  proof -
    have "normaliseKey ` set ?keys = repeated_a ` {1..<200}"
      by (simp add: image_image normaliseKey_repeated_a)
    with st(2) show ?thesis by simp
  qed
  have new: "repeated_a 200 \<notin> repeated_a ` {1..<200}"
    by (auto simp: repeated_a_eq_iff)
  have "insert_oa st (repeated_a 200) = None"
    using full normaliseKey_repeated_a new by (rule insert_oa_saturated)
  with st(1) have "insertKeys (clear_oa LinearProbing 199) (?keys @ [repeated_a 200]) = None"
    by (simp add: insertKeys_append)
  with st(1) show ?thesis by (simp add: returned_def)
qed

section \<open>A linear-probing rehash completes\<close>

text \<open>
  A linear probe visits every slot, so \<open>directInsert\<close> finds the empty slot of a table
  that has one: a rehash of a linear-probing table to a size of at least the number of
  live keys completes, and then it keeps the keys.
\<close>

lemma linear_directInsert_completes:
  assumes lin: "variant st = LinearProbing" and len: "length (table_oa st) = size_oa st"
    and noT: "Tombstone \<notin> set (table_oa st)"
    and room: "length (liveEntries (table_oa st)) < size_oa st"
  shows "\<exists>st'. directInsert st key = Inr st' \<and> variant st' = LinearProbing \<and>
           size_oa st' = size_oa st \<and> length (table_oa st') = size_oa st \<and>
           Tombstone \<notin> set (table_oa st') \<and>
           length (liveEntries (table_oa st')) = Suc (length (liveEntries (table_oa st)))"
proof -
  let ?ctx = "createContext st key"
  have "Empty \<in> set (table_oa st)"
    using room noT len by (intro liveEntries_not_full) simp_all
  then obtain i where i: "i < size_oa st" "table_oa st ! i = Empty"
    using len by (auto simp: in_set_conv_nth)
  obtain a0 where a0: "a0 < size_oa st" "probeInfo st ?ctx a0 = i"
    using linear_probe_covers [OF lin i(1), of ?ctx] by blast
  have e0: "entryAt st (probeInfo st ?ctx a0) = Some Empty"
    using a0 i len by (simp add: entryAt_def)
  define a where "a = (LEAST a. entryAt st (probeInfo st ?ctx a) = Some Empty)"
  have 1: "entryAt st (probeInfo st ?ctx a) = Some Empty"
    unfolding a_def using e0 by (rule LeastI)
  have "a \<le> a0"
    unfolding a_def using e0 by (rule Least_le)
  then have 2: "a < size_oa st" using a0(1) by (rule le_less_trans)
  have 3: "entryAt st (probeInfo st ?ctx a') \<noteq> Some Empty" if "a' < a" for a'
    using that not_less_Least unfolding a_def by blast
  have 4: "entryAt st j \<noteq> Some Tombstone" for j
  proof (cases "j < length (table_oa st)")
    case True
    then have "table_oa st ! j \<in> set (table_oa st)" by (rule nth_mem)
    with noT have "table_oa st ! j \<noteq> Tombstone" by auto
    with True show ?thesis by (simp add: entryAt_def)
  next
    case False
    then show ?thesis by (simp add: entryAt_def)
  qed
  let ?i = "probeInfo st ?ctx a"
  let ?st' = "st\<lparr>table_oa := (table_oa st)[?i := Occupied key], count_oa := count_oa st + 1\<rparr>"
  have "directInsert_loop st key ?ctx 0 = Inr ?st'"
  proof (rule directInsert_loop_first_free [where a = a])
    show "a < size_oa st" by (rule 2)
    show "entryAt st ?i = Some Empty" by (rule 1)
    fix a' assume "a' < a"
    then show "entryAt st (probeInfo st ?ctx a') \<noteq> Some Empty \<and>
               entryAt st (probeInfo st ?ctx a') \<noteq> Some Tombstone"
      using 3 4 by simp
  qed simp
  then have ins: "directInsert st key = Inr ?st'" by (simp add: directInsert_def)
  have slot: "?i < length (table_oa st)" "table_oa st ! ?i = Empty"
    using 1 by (auto simp: entryAt_def split: if_splits)
  have "set ((table_oa st)[?i := Occupied key]) \<subseteq> insert (Occupied key) (set (table_oa st))"
    by (rule set_update_subset_insert)
  then have noT': "Tombstone \<notin> set (table_oa ?st')" using noT by auto
  have "length (liveEntries (table_oa ?st')) = Suc (length (liveEntries (table_oa st)))"
    using liveEntries_update [OF slot, of key] by simp
  with ins noT' lin len show ?thesis by simp
qed

lemma linear_reinsertAll_completes:
  "variant st = LinearProbing \<Longrightarrow> length (table_oa st) = size_oa st \<Longrightarrow>
   Tombstone \<notin> set (table_oa st) \<Longrightarrow>
   length (liveEntries (table_oa st)) + length entries \<le> size_oa st \<Longrightarrow>
   \<exists>st'. reinsertAll st entries = Inr st'"
proof (induction entries arbitrary: st)
  case Nil
  then show ?case by simp
next
  case (Cons entry entries)
  from Cons.prems have "length (liveEntries (table_oa st)) < size_oa st" by simp
  from linear_directInsert_completes [OF Cons.prems(1-3) this, of entry] obtain st1 where
    1: "directInsert st entry = Inr st1" "variant st1 = LinearProbing"
      "size_oa st1 = size_oa st" "length (table_oa st1) = size_oa st"
      "Tombstone \<notin> set (table_oa st1)"
      "length (liveEntries (table_oa st1)) = Suc (length (liveEntries (table_oa st)))"
    by blast
  have "\<exists>st'. reinsertAll st1 entries = Inr st'"
    using 1 Cons.prems(4) by (intro Cons.IH) simp_all
  with 1(1) show ?case by simp
qed

lemma linear_rehash_completes:
  assumes "variant st = LinearProbing"
    and "length (liveEntries (table_oa st)) \<le> newSize"
  shows "\<exists>st'. rehash_oa st newSize = Inr st' \<and> tombstones st' = 0 \<and>
           (\<forall>rawKey. Occupied (normaliseKey rawKey) \<in> set (table_oa st)
              \<longrightarrow> search_oa st' rawKey = (st', Found))"
proof -
  let ?st0 = "st\<lparr>size_oa := newSize, table_oa := replicate newSize Empty,
                  count_oa := 0, tombstones := 0\<rparr>"
  have "\<exists>st'. reinsertAll ?st0 (liveEntries (table_oa st)) = Inr st'"
    using assms by (intro linear_reinsertAll_completes) (simp_all add: liveEntries_replicate)
  then obtain st' where "rehash_oa st newSize = Inr st'"
    by (auto simp: rehash_oa_def)
  then show ?thesis
    using rehash_preserves_membership [of st newSize st'] by blast
qed

section \<open>Key normalisation\<close>

subsection \<open>Decimal digits\<close>

lemma unat_small: "r < 10 \<Longrightarrow> unat (of_nat r :: 16 word) = r"
  by (simp add: unat_of_nat)

lemma digit_unat: "r < 10 \<Longrightarrow> unat (0x30 + of_nat r :: 16 word) = 48 + r"
proof -
  assume r: "r < 10"
  then have "unat (of_nat r :: 16 word) = r" by (simp add: unat_of_nat)
  then have "unat (0x30 + of_nat r :: 16 word) = (48 + r) mod 2 ^ 16"
    by (simp add: unat_word_ariths)
  with r show ?thesis by simp
qed

lemma digit_isDigit: "r < 10 \<Longrightarrow> isDigit (0x30 + of_nat r)"
  using digit_unat [of r] by (simp add: isDigit_def word_le_nat_alt)

lemma digit_value: "r < 10 \<Longrightarrow> unat ((0x30 + of_nat r :: 16 word) - 0x30) = r"
  by (simp add: unat_small)

lemma of_nat_small_zero_iff: "r < 10 \<Longrightarrow> (of_nat r :: 16 word) = 0 \<longleftrightarrow> r = 0"
  using unat_small [of r] by auto

lemma decimalDigits_step:
  "10 \<le> n \<Longrightarrow> decimalDigits n = decimalDigits (n div 10) @ [0x30 + of_nat (n mod 10)]"
  by (subst decimalDigits.simps) simp

lemma decimalDigits_small: "n < 10 \<Longrightarrow> decimalDigits n = [0x30 + of_nat n]"
  by (subst decimalDigits.simps) simp

lemma decimalDigits_nonempty: "decimalDigits n \<noteq> []"
  by (subst decimalDigits.simps) simp

lemma decimalDigits_all_digits: "list_all isDigit (decimalDigits n)"
proof (induction n rule: decimalDigits.induct)
  case (1 n)
  show ?case
  proof (cases "n < 10")
    case True
    then show ?thesis by (simp add: decimalDigits_small digit_isDigit)
  next
    case False
    with "1.IH" show ?thesis by (simp add: decimalDigits_step digit_isDigit)
  qed
qed

lemma mathInt_snoc: "mathInt (ds @ [d]) = 10 * mathInt ds + unat (d - 0x30)"
  by (simp add: mathInt_def)

lemma mathInt_decimalDigits: "mathInt (decimalDigits n) = n"
proof (induction n rule: decimalDigits.induct)
  case (1 n)
  show ?case
  proof (cases "n < 10")
    case True
    then have "mathInt [0x30 + of_nat n] = n"
      using mathInt_snoc [of "[]" "0x30 + of_nat n"] digit_value [of n]
      by (simp add: mathInt_def)
    with True show ?thesis by (simp add: decimalDigits_small)
  next
    case False
    with "1.IH" show ?thesis
      by (simp add: decimalDigits_step mathInt_snoc unat_small)
  qed
qed

lemma hd_decimalDigits: "0 < n \<Longrightarrow> hd (decimalDigits n) \<noteq> 0x30"
proof (induction n rule: decimalDigits.induct)
  case (1 n)
  show ?case
  proof (cases "n < 10")
    case True
    with "1.prems" show ?thesis by (simp add: decimalDigits_small of_nat_small_zero_iff)
  next
    case False
    then have "0 < n div 10" by simp
    with "1.IH" False have "hd (decimalDigits (n div 10)) \<noteq> 0x30" by simp
    with False show ?thesis
      by (simp add: decimalDigits_step decimalDigits_nonempty)
  qed
qed

lemma decimalDigits_times_10:
  "0 < s \<Longrightarrow> decimalDigits (s * 10) = decimalDigits s @ [0x30]"
  by (subst decimalDigits.simps) simp

lemma decimalDigits_shift:
  "0 < s \<Longrightarrow> decimalDigits (s * 10 ^ j) = decimalDigits s @ replicate j 0x30"
proof (induction j)
  case 0
  then show ?case by simp
next
  case (Suc j)
  then have "decimalDigits (s * 10 ^ j * 10) = decimalDigits (s * 10 ^ j) @ [0x30]"
    by (intro decimalDigits_times_10) simp
  with Suc show ?case
    by (simp add: mult.assoc replicate_append_same mult.commute [of 10])
qed

lemma less_power_length_decimalDigits: "n < 10 ^ length (decimalDigits n)"
proof (induction n rule: decimalDigits.induct)
  case (1 n)
  show ?case
  proof (cases "n < 10")
    case True
    then show ?thesis by (simp add: decimalDigits_small)
  next
    case False
    with "1.IH" have "n div 10 < 10 ^ length (decimalDigits (n div 10))" by simp
    then have "n < 10 * 10 ^ length (decimalDigits (n div 10))" by simp
    with False show ?thesis by (simp add: decimalDigits_step)
  qed
qed

lemma length_decimalDigits_le: "n < 10 ^ m \<Longrightarrow> 0 < m \<Longrightarrow> length (decimalDigits n) \<le> m"
proof (induction n arbitrary: m rule: decimalDigits.induct)
  case (1 n)
  show ?case
  proof (cases "n < 10")
    case True
    with "1.prems" show ?thesis by (simp add: decimalDigits_small)
  next
    case False
    obtain m' where m: "m = Suc m'" using "1.prems"(2) by (cases m) auto
    have "0 < m'"
    proof (rule ccontr)
      assume "\<not> 0 < m'"
      with m "1.prems"(1) False show False by simp
    qed
    moreover have "n div 10 < 10 ^ m'" using "1.prems"(1) m by simp
    ultimately have "length (decimalDigits (n div 10)) \<le> m'"
      using "1.IH" False by simp
    with False m show ?thesis by (simp add: decimalDigits_step)
  qed
qed

subsection \<open>Doubles\<close>

lemma bitlen_bounds: "0 < n \<Longrightarrow> 2 ^ (bitlen n - 1) \<le> n \<and> n < 2 ^ bitlen n"
proof (induction n rule: bitlen.induct)
  case (1 n)
  show ?case
  proof (cases "n div 2 = 0")
    case True
    with "1.prems" have n1: "n = Suc 0" by (simp add: div_eq_0_iff)
    have "bitlen (Suc 0) = Suc 0"
      by (simp add: bitlen.simps [of "Suc 0"] bitlen.simps [of 0])
    with n1 show ?thesis by simp
  next
    case False
    then have pos: "0 < n div 2" by simp
    with "1.IH" "1.prems" have ih: "2 ^ (bitlen (n div 2) - 1) \<le> n div 2"
      "n div 2 < 2 ^ bitlen (n div 2)" by simp_all
    have b: "bitlen n = Suc (bitlen (n div 2))"
      using "1.prems" by (subst bitlen.simps) simp
    have "0 < bitlen (n div 2)" using pos by (subst bitlen.simps) simp
    then have e: "bitlen n - 1 = Suc (bitlen (n div 2) - 1)" using b by simp
    have pw: "(2::nat) ^ (bitlen n - 1) = 2 * 2 ^ (bitlen (n div 2) - 1)"
      by (simp only: e power_Suc)
    have "2 * 2 ^ (bitlen (n div 2) - 1) \<le> 2 * (n div 2)" using ih(1) by simp
    also have "\<dots> \<le> n" by simp
    finally have lower: "2 ^ (bitlen n - 1) \<le> n" by (simp only: pw)
    have "n < 2 * (n div 2) + 2" by presburger
    also have "\<dots> \<le> 2 * 2 ^ bitlen (n div 2)" using ih(2) by simp
    finally have "n < 2 ^ bitlen n" by (simp only: b power_Suc)
    with lower show ?thesis by simp
  qed
qed

text \<open>Below \<open>2^53\<close> every integer is a double; from \<open>2^53\<close> on, doubles stay there.\<close>

lemma toDouble_small: "m < 2 ^ 53 \<Longrightarrow> toDouble m = Some m"
  by (simp add: toDouble_def)

lemma toDouble_large:
  assumes "2 ^ 53 \<le> m" and "toDouble m = Some v"
  shows "2 ^ 53 \<le> v"
proof -
  have pos: "0 < m" using assms(1) by (simp add: less_le_trans [of 0 "2 ^ 53"])
  define e where "e = bitlen m - 53"
  define q where "q = m div 2 ^ e"
  define q' where "q' = (if 2 ^ (e - 1) < m mod 2 ^ e \<or> (m mod 2 ^ e = 2 ^ (e - 1) \<and> odd q)
                        then q + 1 else q)"
  have "\<not> m < 2 ^ 53" using assms(1) by simp
  then have "toDouble m = (if q' * 2 ^ e < 2 ^ 1024 then Some (q' * 2 ^ e) else None)"
    by (simp add: toDouble_def Let_def e_def q_def q'_def)
  with assms(2) have v: "v = q' * 2 ^ e"
    by (simp split: if_splits)
  from bitlen_bounds [OF pos] have lo: "2 ^ (bitlen m - 1) \<le> m" and hi: "m < 2 ^ bitlen m"
    by simp_all
  have big: "53 < bitlen m"
  proof (rule ccontr)
    assume "\<not> 53 < bitlen m"
    then have "bitlen m \<le> 53" by simp
    then have "(2::nat) ^ bitlen m \<le> 2 ^ 53" by (intro power_increasing) simp_all
    with hi have "m < 2 ^ 53" by (rule less_le_trans)
    with assms(1) show False by simp
  qed
  then have e1: "1 \<le> e" and split: "bitlen m - 1 = 52 + e" by (simp_all add: e_def)
  have "(2::nat) ^ (52 + e) \<le> m" using lo by (simp only: split)
  then have "(2::nat) ^ 52 * 2 ^ e \<le> m" by (simp only: power_add)
  moreover have "(0::nat) < 2 ^ e" by simp
  ultimately have "2 ^ 52 \<le> q"
    unfolding q_def by (simp only: less_eq_div_iff_mult_less_eq)
  then have "2 ^ 52 \<le> q'" by (simp add: q'_def)
  moreover have "(2::nat) ^ 1 \<le> 2 ^ e" using e1 by (intro power_increasing) simp_all
  ultimately have "(2::nat) ^ 52 * 2 ^ 1 \<le> q' * 2 ^ e" by (rule mult_le_mono)
  then show ?thesis by (simp add: v)
qed

lemma toDouble_eq_small: "x < 2 ^ 53 \<Longrightarrow> toDouble y = Some x \<longleftrightarrow> y = x"
proof
  assume x: "x < 2 ^ 53" and y: "toDouble y = Some x"
  show "y = x"
  proof (cases "y < 2 ^ 53")
    case True
    with y show ?thesis by (simp add: toDouble_small)
  next
    case False
    then have "2 ^ 53 \<le> y" by simp
    from toDouble_large [OF this y] x show ?thesis by simp
  qed
next
  assume "x < 2 ^ 53" "y = x"
  then show "toDouble y = Some x" by (simp add: toDouble_small)
qed

subsection \<open>The digits of a double below \<open>2^53\<close>\<close>

lemma shortestDigits_small:
  "0 < x \<Longrightarrow> x < 2 ^ 53 \<Longrightarrow> x < 10 ^ N \<Longrightarrow> shortestDigits x N k = (s, n) \<Longrightarrow>
   n = N \<and> 0 < s \<and> (\<exists>j. x = s * 10 ^ j)"
proof (induction x N k rule: shortestDigits.induct)
  case (1 x N k)
  note unfold = shortestDigits.simps [of x N k]
  show ?case
  proof (cases "N \<le> k")
    case True
    with "1.prems" have "s = x" "n = N" by (simp_all add: unfold)
    with "1.prems"(1) show ?thesis by (auto intro: exI [of _ 0])
  next
    case False
    define p :: nat where "p = 10 ^ (N - k)"
    define lo where "lo = x div p"
    have p: "0 < p" by (simp add: p_def)
    have hi: "x < (lo + 1) * p"
      using p by (simp add: lo_def dividend_less_div_times)
    then have okHi: "toDouble ((lo + 1) * p) \<noteq> Some x"
      using "1.prems"(2) by (simp add: toDouble_eq_small)
    have okLo: "toDouble (lo * p) = Some x \<longleftrightarrow> lo * p = x"
      using "1.prems"(2) by (simp add: toDouble_eq_small)
    have "x < p * 10 ^ k"
      using "1.prems"(3) False by (simp add: p_def power_add [symmetric])
    then have lo_less: "lo < 10 ^ k"
      using p by (simp add: lo_def less_mult_imp_div_less mult.commute)
    show ?thesis
    proof (cases "lo * p = x")
      case True
      with False okHi okLo lo_less "1.prems"(4) have "s = lo" "n = N"
        by (simp_all add: unfold Let_def p_def [symmetric] lo_def [symmetric])
      moreover have "0 < lo" using True "1.prems"(1) by (cases "lo = 0") auto
      ultimately show ?thesis using True by (auto simp: p_def)
    next
      case ne: False
      with False okHi okLo "1.prems"(4) have rec: "shortestDigits x N (k + 1) = (s, n)"
        by (simp add: unfold Let_def p_def [symmetric] lo_def [symmetric])
      have neg: "\<not> (toDouble (x div 10 ^ (N - k) * 10 ^ (N - k)) = Some x \<or>
                     toDouble ((x div 10 ^ (N - k) + 1) * 10 ^ (N - k)) = Some x)"
        using okHi okLo ne by (simp add: lo_def p_def)
      from "1.IH" [OF False refl refl refl refl refl refl neg "1.prems"(1,2,3) rec]
      show ?thesis .
    qed
  qed
qed

lemma positiveToString_small:
  assumes "0 < x" and "x < 2 ^ 53"
  shows "positiveToString x = decimalDigits x"
proof -
  let ?N = "length (decimalDigits x)"
  obtain s n where sn: "shortestDigits x ?N 1 = (s, n)" by (cases "shortestDigits x ?N 1")
  from shortestDigits_small [OF assms less_power_length_decimalDigits sn]
  obtain j where n: "n = ?N" and s: "0 < s" and x: "x = s * 10 ^ j" by blast
  have digits: "decimalDigits x = decimalDigits s @ replicate j 0x30"
    unfolding x using s by (rule decimalDigits_shift)
  have "x < 10 ^ 16" using assms(2) by simp
  then have "?N \<le> 16" by (rule length_decimalDigits_le) simp
  then have short: "n \<le> 21" using n by simp
  have "n - length (decimalDigits s) = j"
    using n digits by simp
  then show ?thesis
    using sn short digits by (simp add: positiveToString_def Let_def)
qed

subsection \<open>The normalised key\<close>

lemma dropWhile_all: "list_all P s \<Longrightarrow> dropWhile P s = []"
  by (induction s) simp_all

lemma trim_whitespace: "list_all isWhiteSpace s \<Longrightarrow> trim s = []"
  by (simp add: trim_def dropWhile_all)

text \<open>
  Claim C9, as the code has it. \<open>normaliseKey\<close> is a total function of the raw text.
  The text is trimmed. If the trimmed text does not match \<open>^-?[0-9]+$\<close>, it is the
  result, and a text of white space only gives the empty string. If it matches and the
  integer its digits denote is below \<open>2^53\<close>, the result is the canonical decimal
  string of that integer: \<open>0\<close> for zero, whatever the sign, and otherwise the sign and
  the digits without leading zeros. The digits \<open>decimalDigits v\<close> are decimal digits,
  denote \<open>v\<close>, and do not start with \<open>0\<close> for \<open>v > 0\<close>.
\<close>

theorem normaliseKey_canonical:
  "(\<not> matchesInteger (trim rawKey) \<longrightarrow> normaliseKey rawKey = trim rawKey) \<and>
   (list_all isWhiteSpace rawKey \<longrightarrow> normaliseKey rawKey = []) \<and>
   (matchesInteger (trim rawKey) \<and> mathInt (digitsOf (trim rawKey)) < 2 ^ 53 \<longrightarrow>
      normaliseKey rawKey =
        (if mathInt (digitsOf (trim rawKey)) = 0 then ascii ''0''
         else (if isNegative (trim rawKey) then ascii ''-'' else []) @
              decimalDigits (mathInt (digitsOf (trim rawKey))))) \<and>
   list_all isDigit (decimalDigits v) \<and> mathInt (decimalDigits v) = v \<and>
   (0 < v \<longrightarrow> hd (decimalDigits v) \<noteq> 0x30)"
proof (intro conjI impI)
  assume "\<not> matchesInteger (trim rawKey)"
  then show "normaliseKey rawKey = trim rawKey" by (simp add: normaliseKey_def)
next
  assume "list_all isWhiteSpace rawKey"
  then have "trim rawKey = []" by (rule trim_whitespace)
  then show "normaliseKey rawKey = []"
    by (simp add: normaliseKey_def matchesInteger_def digitsOf_def isNegative_def)
next
  let ?key = "trim rawKey"
  let ?m = "mathInt (digitsOf ?key)"
  assume h: "matchesInteger ?key \<and> ?m < 2 ^ 53"
  then have "parseInt ?key = Num (isNegative ?key) ?m"
    by (simp add: parseInt_def toDouble_small)
  moreover have "positiveToString ?m = decimalDigits ?m" if "?m \<noteq> 0"
    using that h by (intro positiveToString_small) simp_all
  ultimately show "normaliseKey rawKey =
        (if ?m = 0 then ascii ''0''
         else (if isNegative ?key then ascii ''-'' else []) @ decimalDigits ?m)"
    using h by (simp add: normaliseKey_def)
next
  show "list_all isDigit (decimalDigits v)" by (rule decimalDigits_all_digits)
  show "mathInt (decimalDigits v) = v" by (rule mathInt_decimalDigits)
next
  assume "0 < v"
  then show "hd (decimalDigits v) \<noteq> 0x30" by (rule hd_decimalDigits)
qed

lemmas number_eval =
  parseInt_def mathInt_def toDouble_def bitlen.simps decimalDigits.simps shortestDigits.simps
  positiveToString_def Let_def

theorem normaliseKey_canonical_witness:
  "normaliseKey (ascii ''  007 '') = ascii ''7'' \<and>
   normaliseKey (ascii ''-12'') = ascii ''-12'' \<and>
   normaliseKey (ascii ''-0'') = ascii ''0'' \<and>
   normaliseKey (ascii '' ab c '') = ascii ''ab c'' \<and>
   normaliseKey (ascii ''   '') = [] \<and>
   hd (decimalDigits 7) \<noteq> 0x30"
proof -
  note plain = normaliseKey_canonical [THEN conjunct1, rule_format]
  note blank = normaliseKey_canonical [THEN conjunct2, THEN conjunct1, rule_format]
  note integer = normaliseKey_canonical [THEN conjunct2, THEN conjunct2, THEN conjunct1, rule_format]
  note nonzero = normaliseKey_canonical
    [THEN conjunct2, THEN conjunct2, THEN conjunct2, THEN conjunct2, THEN conjunct2, rule_format]
  note ev = trim_def ascii_def isWhiteSpace_def matchesInteger_def digitsOf_def isNegative_def
    isDigit_def mathInt_def decimalDigits.simps
  have t1: "trim (ascii ''  007 '') = ascii ''007''" by (simp add: ev)
  have "matchesInteger (trim (ascii ''  007 '')) \<and>
        mathInt (digitsOf (trim (ascii ''  007 ''))) < 2 ^ 53"
    by (simp add: ev)
  from integer [OF this] have 1: "normaliseKey (ascii ''  007 '') = ascii ''7''"
    by (simp add: ev)
  have "matchesInteger (trim (ascii ''-12'')) \<and>
        mathInt (digitsOf (trim (ascii ''-12''))) < 2 ^ 53"
    by (simp add: ev)
  from integer [OF this] have 2: "normaliseKey (ascii ''-12'') = ascii ''-12''"
    by (simp add: ev)
  have "matchesInteger (trim (ascii ''-0'')) \<and>
        mathInt (digitsOf (trim (ascii ''-0''))) < 2 ^ 53"
    by (simp add: ev)
  from integer [OF this] have 3: "normaliseKey (ascii ''-0'') = ascii ''0''"
    by (simp add: ev)
  have "\<not> matchesInteger (trim (ascii '' ab c ''))" by (simp add: ev)
  from plain [OF this] have 4: "normaliseKey (ascii '' ab c '') = ascii ''ab c''"
    by (simp add: ev)
  have "list_all isWhiteSpace (ascii ''   '')" by (simp add: ev)
  from blank [OF this] have 5: "normaliseKey (ascii ''   '') = []" .
  have "(0::nat) < 7" by simp
  from nonzero [OF this] have 6: "hd (decimalDigits 7) \<noteq> 0x30" .
  from 1 2 3 4 5 6 show ?thesis by simp
qed

text \<open>
  The claim as stated gives the canonical decimal string for every matching text.
  \<open>parseInt\<close> returns a double: from \<open>2^53\<close> on the digits are rounded, and from
  \<open>10^21\<close> on \<open>String\<close> writes the number with an exponent.
\<close>

theorem normaliseKey_rounds_large_integers:
  "matchesInteger (trim (ascii ''9007199254740993'')) \<and>
   normaliseKey (ascii ''9007199254740993'') = ascii ''9007199254740992'' \<and>
   matchesInteger (trim (ascii ''1000000000000000000000'')) \<and>
   normaliseKey (ascii ''1000000000000000000000'') = ascii ''1e+21''"
proof (intro conjI)
  show "matchesInteger (trim (ascii ''9007199254740993''))"
    by (simp add: key_eval)
  show "normaliseKey (ascii ''9007199254740993'') = ascii ''9007199254740992''"
    by (simp add: key_eval number_eval)
  show "matchesInteger (trim (ascii ''1000000000000000000000''))"
    by (simp add: key_eval)
  show "normaliseKey (ascii ''1000000000000000000000'') = ascii ''1e+21''"
    by (simp add: key_eval number_eval)
qed

end
